theory Spec2Isabelle
  imports Main
begin

section \<open>Support utilities of \<^verbatim>\<open>dagrt/vm/utils.py\<close>\<close>

subsection \<open>Python string primitives\<close>

text \<open>
  Python's \<^verbatim>\<open>s.startswith(p)\<close>: the first \<open>len(p)\<close> characters of \<open>s\<close> are \<open>p\<close>.
\<close>

definition startswith :: "string \<Rightarrow> string \<Rightarrow> bool" where
  "startswith s p = (take (length p) s = p)"

text \<open>
  Python's \<^verbatim>\<open>str(n)\<close> on a non-negative integer: its decimal rendering, most
  significant digit first, without leading zeros. The suffix counter of
  \<^verbatim>\<open>get_unique_name\<close> starts at 0 and is only ever incremented, so it is a
  natural number.
\<close>

definition digit_char :: "nat \<Rightarrow> char" where
  "digit_char d = ''0123456789'' ! d"

function str :: "nat \<Rightarrow> string" where
  "str n = (if n < 10 then [digit_char n] else str (n div 10) @ [digit_char (n mod 10)])"
  by pat_completeness auto
termination
  by (relation "measure (\<lambda>n. n)") auto

declare str.simps [simp del]

subsection \<open>\<^verbatim>\<open>is_state_variable\<close>\<close>

definition is_state_variable :: "string \<Rightarrow> bool" where
  "is_state_variable var =
     (if var = ''<t>'' \<or> var = ''<dt>'' then True
      else if startswith var ''<state>''
            \<or> startswith var ''<p>''
            \<or> startswith var ''<ret_time_id>''
            \<or> startswith var ''<ret_time>''
            \<or> startswith var ''<ret_state>''
      then True
      else False)"

subsection \<open>\<^verbatim>\<open>get_unique_name\<close>\<close>

text \<open>
  The inner helper \<^verbatim>\<open>is_in_name_sets\<close> walks the name sets in order and answers
  at the first one that holds the name.
\<close>

fun is_in_name_sets :: "string set list \<Rightarrow> string \<Rightarrow> bool" where
  "is_in_name_sets [] var = False"
| "is_in_name_sets (name_set # name_sets) var =
     (if var \<in> name_set then True else is_in_name_sets name_sets var)"

text \<open>
  The \<^verbatim>\<open>while\<close> loop that probes the suffixes. Nothing in the code bounds it, so
  it is a partial function: \<open>None\<close> is the loop that never ends.
\<close>

partial_function (option) probe_suffix :: "string set list \<Rightarrow> string \<Rightarrow> nat \<Rightarrow> string option" where
  "probe_suffix name_sets prefix suffix =
     (if is_in_name_sets name_sets (prefix @ str suffix)
      then probe_suffix name_sets prefix (suffix + 1)
      else Some (prefix @ str suffix))"

declare probe_suffix.simps [code]

text \<open>
  \<^verbatim>\<open>prefix = str(prefix)\<close> is the identity on a string, which is what a prefix is
  here.
\<close>

definition get_unique_name :: "string \<Rightarrow> string set list \<Rightarrow> string option" where
  "get_unique_name prefix name_sets =
     (if \<not> is_in_name_sets name_sets prefix then Some prefix
      else probe_suffix name_sets prefix 0)"

subsection \<open>\<^verbatim>\<open>resolve_args\<close>\<close>

text \<open>
  The keys of \<^verbatim>\<open>arg_dict\<close> are numbers (positional arguments) or identifiers (keyword
  arguments); the keys of \<^verbatim>\<open>default_dict\<close> are identifiers.
\<close>

datatype key = Pos int | Kw string

text \<open>
  A dictionary is an association list read with \<open>map_of\<close>. Dictionaries are objects:
  the heap is the list of all dictionaries and a reference is an index into it, so that
  \<^verbatim>\<open>arg_dict.copy()\<close> allocates a new object and \<^verbatim>\<open>pop\<close> mutates the object it is
  called on.
\<close>

type_synonym 'v pydict = "(key \<times> 'v) list"
type_synonym ref = nat
type_synonym 'v heap = "'v pydict list"

text \<open>
  The three \<^verbatim>\<open>raise TypeError\<close> sites of \<^verbatim>\<open>resolve_args\<close>, and the \<^verbatim>\<open>KeyError\<close> of
  \<^verbatim>\<open>dict.pop\<close> and \<^verbatim>\<open>dict.__getitem__\<close> on a missing key. (At the first site the message
  is formatted with \<^verbatim>\<open>%d\<close> from a name; on a string that formatting itself raises
  \<^verbatim>\<open>TypeError\<close>, so the exception type is the same.)
\<close>

datatype error =
    TypeError_both_given nat string
  | TypeError_not_specified string
  | TypeError_leftover "key list"
  | KeyError key

definition is_TypeError :: "error \<Rightarrow> bool" where
  "is_TypeError e = (case e of KeyError k \<Rightarrow> False | _ \<Rightarrow> True)"

definition remove_key :: "key \<Rightarrow> 'v pydict \<Rightarrow> 'v pydict" where
  "remove_key k d = filter (\<lambda>(k', v). k' \<noteq> k) d"

text \<open>\<^verbatim>\<open>k in d\<close>\<close>

definition dict_contains :: "'v heap \<Rightarrow> ref \<Rightarrow> key \<Rightarrow> bool" where
  "dict_contains h r k = (map_of (h ! r) k \<noteq> None)"

text \<open>\<^verbatim>\<open>d[k]\<close>\<close>

definition dict_getitem :: "'v heap \<Rightarrow> ref \<Rightarrow> key \<Rightarrow> error + 'v" where
  "dict_getitem h r k = (case map_of (h ! r) k of None \<Rightarrow> Inl (KeyError k) | Some v \<Rightarrow> Inr v)"

text \<open>\<^verbatim>\<open>d.pop(k)\<close>: the value, and the heap in which \<open>d\<close> has lost the key.\<close>

definition dict_pop :: "'v heap \<Rightarrow> ref \<Rightarrow> key \<Rightarrow> error + ('v heap \<times> 'v)" where
  "dict_pop h r k =
     (case map_of (h ! r) k of
        None \<Rightarrow> Inl (KeyError k)
      | Some v \<Rightarrow> Inr (h[r := remove_key k (h ! r)], v))"

text \<open>\<^verbatim>\<open>d.copy()\<close>: a new object with the same entries.\<close>

definition dict_copy :: "'v heap \<Rightarrow> ref \<Rightarrow> 'v heap \<times> ref" where
  "dict_copy h r = (h @ [h ! r], length h)"

text \<open>The truth value of a dictionary (\<^verbatim>\<open>if arg_dict:\<close>) and the iteration over its keys.\<close>

definition dict_bool :: "'v heap \<Rightarrow> ref \<Rightarrow> bool" where
  "dict_bool h r = (h ! r \<noteq> [])"

definition dict_keys :: "'v heap \<Rightarrow> ref \<Rightarrow> key list" where
  "dict_keys h r = map fst (h ! r)"

text \<open>
  The loop \<^verbatim>\<open>for i, name in enumerate(arg_names)\<close>, over the list of pairs that
  \<^verbatim>\<open>enumerate\<close> yields. It returns the heap as the loop leaves it, and either the first
  exception raised or the list \<^verbatim>\<open>args\<close>.
\<close>

fun resolve_loop ::
  "'v heap \<Rightarrow> ref \<Rightarrow> ref \<Rightarrow> (nat \<times> string) list \<Rightarrow> 'v list \<Rightarrow> 'v heap \<times> (error + 'v list)" where
  "resolve_loop h default_dict arg_dict [] args = (h, Inr args)"
| "resolve_loop h default_dict arg_dict ((i, name) # rest) args =
     (if dict_contains h arg_dict (Pos (int i)) then
        (case dict_pop h arg_dict (Pos (int i)) of
           Inl e \<Rightarrow> (h, Inl e)
         | Inr (h', v) \<Rightarrow>
             if dict_contains h' arg_dict (Kw name)
             then (h', Inl (TypeError_both_given i name))
             else resolve_loop h' default_dict arg_dict rest (args @ [v]))
      else if dict_contains h arg_dict (Kw name) then
        (case dict_pop h arg_dict (Kw name) of
           Inl e \<Rightarrow> (h, Inl e)
         | Inr (h', v) \<Rightarrow> resolve_loop h' default_dict arg_dict rest (args @ [v]))
      else
        if dict_contains h default_dict (Kw name) then
          (case dict_getitem h default_dict (Kw name) of
             Inl e \<Rightarrow> (h, Inl e)
           | Inr v \<Rightarrow> resolve_loop h default_dict arg_dict rest (args @ [v]))
        else (h, Inl (TypeError_not_specified name)))"

text \<open>
  \<^verbatim>\<open>resolve_args\<close> takes the two dictionaries by reference, rebinds its local name
  \<^verbatim>\<open>arg_dict\<close> to a copy, runs the loop on it and then checks the copy for leftovers.
\<close>

definition resolve_args ::
  "'v heap \<Rightarrow> string list \<Rightarrow> ref \<Rightarrow> ref \<Rightarrow> 'v heap \<times> (error + 'v list)" where
  "resolve_args h arg_names default_dict arg_dict =
     (case dict_copy h arg_dict of
        (h1, arg_dict') \<Rightarrow>
          (case resolve_loop h1 default_dict arg_dict' (enumerate 0 arg_names) [] of
             (h2, Inl e) \<Rightarrow> (h2, Inl e)
           | (h2, Inr args) \<Rightarrow>
               if dict_bool h2 arg_dict'
               then (h2, Inl (TypeError_leftover (dict_keys h2 arg_dict')))
               else (h2, Inr args)))"

subsection \<open>The conditions of argument resolution, as the specification words them\<close>

text \<open>
  These predicates read the caller's dictionaries only; they are what the statements
  about \<^verbatim>\<open>resolve_args\<close> compare the code with.

  An argument is given twice when both its positional index and its name are keys of
  \<^verbatim>\<open>arg_dict\<close>.
\<close>

definition both_given_at :: "'v pydict \<Rightarrow> nat \<Rightarrow> string \<Rightarrow> bool" where
  "both_given_at arg_dict i name =
     (map_of arg_dict (Pos (int i)) \<noteq> None \<and> map_of arg_dict (Kw name) \<noteq> None)"

definition specified_twice :: "string list \<Rightarrow> 'v pydict \<Rightarrow> bool" where
  "specified_twice arg_names arg_dict =
     list_ex (\<lambda>(i, name). both_given_at arg_dict i name) (enumerate 0 arg_names)"

text \<open>
  A name is not specified when it has no positional entry, no keyword entry and no
  default.
\<close>

definition unbound_at :: "'v pydict \<Rightarrow> 'v pydict \<Rightarrow> nat \<Rightarrow> string \<Rightarrow> bool" where
  "unbound_at arg_dict default_dict i name =
     (map_of arg_dict (Pos (int i)) = None \<and> map_of arg_dict (Kw name) = None
      \<and> map_of default_dict (Kw name) = None)"

definition not_specified :: "string list \<Rightarrow> 'v pydict \<Rightarrow> 'v pydict \<Rightarrow> bool" where
  "not_specified arg_names default_dict arg_dict =
     list_ex (\<lambda>(i, name). unbound_at arg_dict default_dict i name) (enumerate 0 arg_names)"

text \<open>
  One binding is consumed per name: the positional entry if there is one, else the
  keyword entry if there is one. Entries of \<^verbatim>\<open>arg_dict\<close> that no name consumes are
  left over.
\<close>

definition consumed_key :: "'v pydict \<Rightarrow> nat \<Rightarrow> string \<Rightarrow> key list" where
  "consumed_key arg_dict i name =
     (if map_of arg_dict (Pos (int i)) \<noteq> None then [Pos (int i)]
      else if map_of arg_dict (Kw name) \<noteq> None then [Kw name]
      else [])"

definition consumed_keys :: "string list \<Rightarrow> 'v pydict \<Rightarrow> key list" where
  "consumed_keys arg_names arg_dict =
     concat (map (\<lambda>(i, name). consumed_key arg_dict i name) (enumerate 0 arg_names))"

definition leftover :: "string list \<Rightarrow> 'v pydict \<Rightarrow> bool" where
  "leftover arg_names arg_dict =
     list_ex (\<lambda>k. k \<notin> set (consumed_keys arg_names arg_dict)) (map fst arg_dict)"

text \<open>
  The value bound to the name at position \<open>i\<close>: \<^verbatim>\<open>arg_dict[i]\<close> if the positional key
  is present, else \<^verbatim>\<open>arg_dict[name]\<close> if the keyword key is present, else
  \<^verbatim>\<open>default_dict[name]\<close>.
\<close>

definition bound_value :: "'v pydict \<Rightarrow> 'v pydict \<Rightarrow> nat \<Rightarrow> string \<Rightarrow> 'v option" where
  "bound_value arg_dict default_dict i name =
     (if map_of arg_dict (Pos (int i)) \<noteq> None then map_of arg_dict (Pos (int i))
      else if map_of arg_dict (Kw name) \<noteq> None then map_of arg_dict (Kw name)
      else map_of default_dict (Kw name))"

section \<open>The instruction graph, the code generator and the generated stepper\<close>

text \<open>
  The test module \<^verbatim>\<open>test_codegen_python.py\<close> drives the instruction language, the
  program constructor and the code generator, none of which is among the source files
  at hand. This section models them from the specification.
\<close>

subsection \<open>Expressions\<close>

text \<open>
  Modelled from the spec: the expression algebra is an external collaborator and its
  source is missing. The fragment the scenarios use is kept: integer constants,
  variables and sums, over any type of variable names.
\<close>

datatype 'a expr = Const int | Var 'a | Add "'a expr" "'a expr"

text \<open>
  Modelled from the spec: expression evaluation, whose source is missing. A variable
  without a value has no result.
\<close>

fun eval_expr :: "('a \<Rightarrow> int option) \<Rightarrow> 'a expr \<Rightarrow> int option" where
  "eval_expr env (Const c) = Some c"
| "eval_expr env (Var x) = env x"
| "eval_expr env (Add a b) =
     (case eval_expr env a of
        None \<Rightarrow> None
      | Some x \<Rightarrow> (case eval_expr env b of None \<Rightarrow> None | Some y \<Rightarrow> Some (x + y)))"

subsection \<open>Instructions and programs\<close>

text \<open>
  Modelled from the spec: the instruction variants (section 3), whose source is missing:
  \<open>Assign{assignee, expression}\<close>,
  \<open>ConditionalBranch{condition, then_depends_on, else_depends_on}\<close>,
  \<open>Emit{time, time_id, expression, component_id}\<close>, \<open>AbortStep{}\<close> and
  \<open>RaiseError{kind, message}\<close>.
\<close>

datatype variant =
    Assign string "string expr"
  | ConditionalBranch "string expr" "string list" "string list"
  | Emit int string "string expr" string
  | AbortStep
  | RaiseError string string

text \<open>
  Modelled from the spec: an instruction (section 3), whose source is missing: an id, a
  variant and the ids it depends on.
\<close>

record instruction =
  instr_id :: string
  depends_on :: "string list"
  variant :: variant

text \<open>
  Modelled from the spec: a program state (section 3), whose source is missing: the root
  ids that must complete, and the state entered afterwards. Its name is the key under
  which the program holds it.
\<close>

record program_state =
  root_ids :: "string list"
  next_state :: string

text \<open>
  Modelled from the spec: a program (section 3), whose source is missing: the
  instructions in registration order, the named states and the initial state.
\<close>

record program =
  instructions :: "instruction list"
  states :: "(string \<times> program_state) list"
  initial_state :: string

text \<open>
  Modelled from the spec: the build-time error of program construction (section 7),
  whose source is missing.
\<close>

datatype build_error = UnresolvedDependencyError string

text \<open>
  Modelled from the spec: the ids an instruction refers to (section 8: \<open>depends_on\<close>,
  \<open>then_depends_on\<close>, \<open>else_depends_on\<close>); the source is missing.
\<close>

definition referenced_ids :: "instruction \<Rightarrow> string list" where
  "referenced_ids ins =
     depends_on ins @
     (case variant ins of ConditionalBranch c t e \<Rightarrow> t @ e | _ \<Rightarrow> [])"

text \<open>
  Modelled from the spec: the two-state program of section 4.2, whose source is
  missing: \<open>initialization\<close> rooted at \<open>initialization_dep_on\<close> with successor
  \<open>primary\<close>, and \<open>primary\<close> rooted at \<open>step_dep_on\<close> with itself as successor.
\<close>

definition two_state_program :: "string list \<Rightarrow> instruction list \<Rightarrow> string list \<Rightarrow> program" where
  "two_state_program initialization_dep_on instrs step_dep_on =
     \<lparr>instructions = instrs,
      states = [(''initialization'',
                  \<lparr>root_ids = initialization_dep_on, next_state = ''primary''\<rparr>),
                (''primary'', \<lparr>root_ids = step_dep_on, next_state = ''primary''\<rparr>)],
      initial_state = ''initialization''\<rparr>"

text \<open>
  Modelled from the spec: \<open>create_with_init_and_step\<close> (section 4.2), whose source is
  missing. It fails with \<open>UnresolvedDependencyError\<close> if a referenced id is absent from
  the instructions.
\<close>

definition create_with_init_and_step ::
  "string list \<Rightarrow> instruction list \<Rightarrow> string list \<Rightarrow> build_error + program" where
  "create_with_init_and_step initialization_dep_on instrs step_dep_on =
     (case find (\<lambda>i. i \<notin> set (map instr_id instrs))
             (initialization_dep_on @ step_dep_on @ concat (map referenced_ids instrs)) of
        Some i \<Rightarrow> Inl (UnresolvedDependencyError i)
      | None \<Rightarrow> Inr (two_state_program initialization_dep_on instrs step_dep_on))"

subsection \<open>Scheduling\<close>

text \<open>
  Modelled from the spec: looking an instruction up by its id in the program's
  instruction set (section 3); the source is missing.
\<close>

definition find_instruction :: "program \<Rightarrow> string \<Rightarrow> instruction option" where
  "find_instruction p i = find (\<lambda>ins. instr_id ins = i) (instructions p)"

text \<open>
  Modelled from the spec: the reachable subgraph of section 4.3, step 1, whose source is
  missing: the root ids plus their transitive \<open>depends_on\<close>. The arms of a branch are
  not followed. As many rounds as there are instructions reach everything.
\<close>

fun reachable :: "nat \<Rightarrow> program \<Rightarrow> string list \<Rightarrow> string list" where
  "reachable 0 p ids = ids"
| "reachable (Suc n) p ids =
     reachable n p
       (remdups (ids @ concat (map (\<lambda>i. case find_instruction p i of
                                            None \<Rightarrow> []
                                          | Some ins \<Rightarrow> depends_on ins) ids)))"

text \<open>
  Modelled from the spec: the topological order of section 4.3, step 2, whose source is
  missing. \<open>pending\<close> is in registration order, and the first pending instruction whose
  dependencies are all done comes next, which breaks ties by registration order.
\<close>

fun topological_order :: "nat \<Rightarrow> instruction list \<Rightarrow> string list \<Rightarrow> instruction list" where
  "topological_order 0 pending done = []"
| "topological_order (Suc n) pending done =
     (case find (\<lambda>ins. list_all (\<lambda>d. d \<in> set done) (depends_on ins)) pending of
        None \<Rightarrow> []
      | Some ins \<Rightarrow> ins # topological_order n (remove1 ins pending) (instr_id ins # done))"

text \<open>
  Modelled from the spec: the schedule of one scheduling unit (section 4.3), whose
  source is missing. There is none when an id is unknown or the dependencies are
  cyclic, which the invariants of section 3 exclude.
\<close>

definition schedule :: "program \<Rightarrow> string list \<Rightarrow> instruction list option" where
  "schedule p roots =
     (let ids = reachable (length (instructions p)) p roots;
          unit = filter (\<lambda>ins. instr_id ins \<in> set ids) (instructions p);
          order = topological_order (length unit) unit []
      in if length order = length unit \<and> list_all (\<lambda>i. find_instruction p i \<noteq> None) ids
         then Some order else None)"

subsection \<open>Identifier assignment\<close>

text \<open>
  Modelled from the spec: the names of one namespace with the identifiers assigned to
  them so far (section 4.3, step 3); the source is missing.
\<close>

type_synonym name_map = "(string \<times> string) list"

text \<open>
  Modelled from the spec: the unique-name strategy of section 4.3, step 3, whose source
  is missing: a name that is legal and unused is kept; otherwise the sanitized name is
  made unique with \<open>get_unique_name\<close>. What the target accepts as an identifier
  (\<open>legal\<close>) and how a name is sanitized (\<open>sanitize\<close>) are parameters.
\<close>

definition make_identifier ::
  "(string \<Rightarrow> bool) \<Rightarrow> (string \<Rightarrow> string) \<Rightarrow> name_map \<Rightarrow> string \<Rightarrow> string option" where
  "make_identifier legal sanitize m name =
     (if legal name \<and> name \<notin> snd ` set m then Some name
      else get_unique_name (sanitize name) [snd ` set m])"

text \<open>
  Modelled from the spec: every distinct name is mapped to one identifier (section 4.3,
  step 3); the source is missing. A name seen before keeps its identifier.
\<close>

definition name_to_identifier ::
  "(string \<Rightarrow> bool) \<Rightarrow> (string \<Rightarrow> string) \<Rightarrow> name_map \<Rightarrow> string \<Rightarrow> (name_map \<times> string) option" where
  "name_to_identifier legal sanitize m name =
     (case map_of m name of
        Some ident \<Rightarrow> Some (m, ident)
      | None \<Rightarrow>
          (case make_identifier legal sanitize m name of
             None \<Rightarrow> None
           | Some ident \<Rightarrow> Some (m @ [(name, ident)], ident)))"

text \<open>
  Modelled from the spec: registering a list of names in one namespace, in order; the
  source is missing.
\<close>

fun register_names ::
  "(string \<Rightarrow> bool) \<Rightarrow> (string \<Rightarrow> string) \<Rightarrow> name_map \<Rightarrow> string list \<Rightarrow> name_map option" where
  "register_names legal sanitize m [] = Some m"
| "register_names legal sanitize m (name # rest) =
     (case name_to_identifier legal sanitize m name of
        None \<Rightarrow> None
      | Some (m', ident) \<Rightarrow> register_names legal sanitize m' rest)"

text \<open>
  Modelled from the spec: the independent namespaces of section 4.3, step 3, whose
  source is missing. The two that hold values are kept: the persistent variables and
  the locals of the state being generated. (The expression fragment has no calls, and
  event labels are passed through, so the other two are never consulted.)
\<close>

record names =
  persistent_names :: name_map
  local_names :: name_map

text \<open>
  Modelled from the spec: a variable of the generated stepper, an identifier tagged
  with its namespace; the source is missing.
\<close>

datatype var = Persistent string | Local string

text \<open>
  Modelled from the spec: lowering a variable name (section 4.3, step 3), whose source
  is missing. The namespace is inferred from the literal prefix of the name by
  \<open>is_state_variable\<close>.
\<close>

definition lower_var ::
  "(string \<Rightarrow> bool) \<Rightarrow> (string \<Rightarrow> string) \<Rightarrow> names \<Rightarrow> string \<Rightarrow> (names \<times> var) option" where
  "lower_var legal sanitize ns name =
     (if is_state_variable name then
        (case name_to_identifier legal sanitize (persistent_names ns) name of
           None \<Rightarrow> None
         | Some (m, ident) \<Rightarrow> Some (ns\<lparr>persistent_names := m\<rparr>, Persistent ident))
      else
        (case name_to_identifier legal sanitize (local_names ns) name of
           None \<Rightarrow> None
         | Some (m, ident) \<Rightarrow> Some (ns\<lparr>local_names := m\<rparr>, Local ident)))"

text \<open>
  Modelled from the spec: expression lowering (section 4.3, step 4), whose source is
  missing: every name is replaced by its identifier, left to right.
\<close>

fun lower_expr ::
  "(string \<Rightarrow> bool) \<Rightarrow> (string \<Rightarrow> string) \<Rightarrow> names \<Rightarrow> string expr \<Rightarrow> (names \<times> var expr) option" where
  "lower_expr legal sanitize ns (Const c) = Some (ns, Const c)"
| "lower_expr legal sanitize ns (Var x) =
     (case lower_var legal sanitize ns x of
        None \<Rightarrow> None
      | Some (ns1, v) \<Rightarrow> Some (ns1, Var v))"
| "lower_expr legal sanitize ns (Add a b) =
     (case lower_expr legal sanitize ns a of
        None \<Rightarrow> None
      | Some (ns1, a') \<Rightarrow>
          (case lower_expr legal sanitize ns1 b of
             None \<Rightarrow> None
           | Some (ns2, b') \<Rightarrow> Some (ns2, Add a' b')))"

subsection \<open>Lowering\<close>

text \<open>
  Modelled from the spec: the target actions that instructions are lowered to (section
  4.3, step 4), whose source is missing: store, two-arm branch, yield an event, signal
  step failure, raise the named error.
\<close>

datatype action =
    Store var "var expr"
  | Branch "var expr" "action list" "action list"
  | Yield int string "var expr" string
  | FailStep
  | Raise string string

text \<open>
  Modelled from the spec: lowering a schedule (section 4.3, step 4), whose source is
  missing. Each arm of a branch holds the schedule of its own id set only. Arms nest at
  most as deep as there are instructions; \<open>fuel\<close> counts that depth down, and nesting
  beyond it (a cycle through arms) has no code.
\<close>

fun lower_instrs ::
  "nat \<Rightarrow> (string \<Rightarrow> bool) \<Rightarrow> (string \<Rightarrow> string) \<Rightarrow> program \<Rightarrow> names \<Rightarrow> instruction list
     \<Rightarrow> (names \<times> action list) option" where
  "lower_instrs fuel legal sanitize p ns [] = Some (ns, [])"
| "lower_instrs fuel legal sanitize p ns (ins # rest) =
     (case
        (case variant ins of
           Assign x e \<Rightarrow>
             (case lower_expr legal sanitize ns e of
                None \<Rightarrow> None
              | Some (ns1, e') \<Rightarrow>
                  (case lower_var legal sanitize ns1 x of
                     None \<Rightarrow> None
                   | Some (ns2, v) \<Rightarrow> Some (ns2, Store v e')))
         | ConditionalBranch c t e \<Rightarrow>
             (case fuel of
                0 \<Rightarrow> None
              | Suc f \<Rightarrow>
                  (case lower_expr legal sanitize ns c of
                     None \<Rightarrow> None
                   | Some (ns1, c') \<Rightarrow>
                       (case schedule p t of
                          None \<Rightarrow> None
                        | Some ts \<Rightarrow>
                            (case lower_instrs f legal sanitize p ns1 ts of
                               None \<Rightarrow> None
                             | Some (ns2, ta) \<Rightarrow>
                                 (case schedule p e of
                                    None \<Rightarrow> None
                                  | Some es \<Rightarrow>
                                      (case lower_instrs f legal sanitize p ns2 es of
                                         None \<Rightarrow> None
                                       | Some (ns3, ea) \<Rightarrow> Some (ns3, Branch c' ta ea)))))))
         | Emit tm tid e cid \<Rightarrow>
             (case lower_expr legal sanitize ns e of
                None \<Rightarrow> None
              | Some (ns1, e') \<Rightarrow> Some (ns1, Yield tm tid e' cid))
         | AbortStep \<Rightarrow> Some (ns, FailStep)
         | RaiseError k m \<Rightarrow> Some (ns, Raise k m)) of
        None \<Rightarrow> None
      | Some (ns', a) \<Rightarrow>
          (case lower_instrs fuel legal sanitize p ns' rest of
             None \<Rightarrow> None
           | Some (ns'', as) \<Rightarrow> Some (ns'', a # as)))"

text \<open>
  Modelled from the spec: the code generated for one state (section 4.3), whose source
  is missing: its actions and the state entered after it.
\<close>

record state_code =
  actions :: "action list"
  successor :: string

text \<open>
  Modelled from the spec: the generated stepper's code (section 4.3), whose source is
  missing: the code of each state, the initial state and the identifiers of the
  persistent variables.
\<close>

record stepper_code =
  code_states :: "(string \<times> state_code) list"
  code_initial_state :: string
  code_persistent_names :: name_map

text \<open>
  Modelled from the spec: generating the states one after the other (section 4.3),
  whose source is missing. The persistent namespace is shared by all states; the
  locals are scoped per state, so each state starts with no local names.
\<close>

fun generate_states ::
  "(string \<Rightarrow> bool) \<Rightarrow> (string \<Rightarrow> string) \<Rightarrow> program \<Rightarrow> name_map
     \<Rightarrow> (string \<times> program_state) list \<Rightarrow> (name_map \<times> (string \<times> state_code) list) option" where
  "generate_states legal sanitize p pm [] = Some (pm, [])"
| "generate_states legal sanitize p pm ((name, st) # rest) =
     (case schedule p (root_ids st) of
        None \<Rightarrow> None
      | Some instrs \<Rightarrow>
          (case lower_instrs (length (instructions p)) legal sanitize p
                  \<lparr>persistent_names = pm, local_names = []\<rparr> instrs of
             None \<Rightarrow> None
           | Some (ns, acts) \<Rightarrow>
               (case generate_states legal sanitize p (persistent_names ns) rest of
                  None \<Rightarrow> None
                | Some (pm', cs) \<Rightarrow>
                    Some (pm', (name, \<lparr>actions = acts, successor = next_state st\<rparr>) # cs))))"

text \<open>
  Modelled from the spec: the code generator (section 4.3), whose source is missing.
  The time and step-size singletons are persistent variables of every stepper and are
  registered first.
\<close>

definition generate ::
  "(string \<Rightarrow> bool) \<Rightarrow> (string \<Rightarrow> string) \<Rightarrow> program \<Rightarrow> stepper_code option" where
  "generate legal sanitize p =
     (case register_names legal sanitize [] [''<t>'', ''<dt>''] of
        None \<Rightarrow> None
      | Some m \<Rightarrow>
          (case generate_states legal sanitize p m (states p) of
             None \<Rightarrow> None
           | Some (pm, cs) \<Rightarrow>
               Some \<lparr>code_states = cs, code_initial_state = initial_state p,
                     code_persistent_names = pm\<rparr>))"

text \<open>
  Modelled from the spec: what the scenarios of section 8 do before running, whose
  source is missing: construct the program with \<open>create_with_init_and_step\<close> and
  generate its stepper.
\<close>

definition build_stepper ::
  "(string \<Rightarrow> bool) \<Rightarrow> (string \<Rightarrow> string) \<Rightarrow> string list \<Rightarrow> instruction list \<Rightarrow> string list
     \<Rightarrow> stepper_code option" where
  "build_stepper legal sanitize initialization_dep_on instrs step_dep_on =
     (case create_with_init_and_step initialization_dep_on instrs step_dep_on of
        Inl err \<Rightarrow> None
      | Inr p \<Rightarrow> generate legal sanitize p)"

subsection \<open>The execution contract\<close>

text \<open>
  Modelled from the spec: the event types of section 6, whose source is missing:
  \<open>Emitted{component_id, time_id, time, value}\<close> and \<open>StateCompleted{state_name}\<close>.
\<close>

datatype event = Emitted string string int int | StateCompleted string

text \<open>
  Modelled from the spec: the failure signals of section 6, whose source is missing:
  \<open>StepFailed\<close> (recoverable) and \<open>Raised{kind, message}\<close> (fatal).
\<close>

datatype failure = StepFailed | Raised string string

text \<open>
  Modelled from the spec: variable storage (section 5), whose source is missing;
  identifiers with their values, the most recent assignment first.
\<close>

type_synonym store = "(string \<times> int) list"

text \<open>
  Modelled from the spec: a running stepper (section 4.4), whose source is missing: its
  current state and its persistent variables. Locals do not outlive a state execution.
\<close>

record stepper =
  current_state :: string
  persistent :: store

text \<open>
  Modelled from the spec: \<open>set_up(initial_time, initial_step_size, context)\<close> (section
  4.4), whose source is missing: it initializes the time and step-size singletons and
  the persistent variables from \<open>context\<close>, and sets the current state to the initial
  state. A value is stored under the identifier of its variable.
\<close>

definition set_up :: "stepper_code \<Rightarrow> int \<Rightarrow> int \<Rightarrow> (string \<times> int) list \<Rightarrow> stepper" where
  "set_up code initial_time initial_step_size context =
     \<lparr>current_state = code_initial_state code,
      persistent =
        concat (map (\<lambda>(name, v). case map_of (code_persistent_names code) name of
                                      None \<Rightarrow> []
                                    | Some ident \<Rightarrow> [(ident, v)])
                    ([(''<t>'', initial_time), (''<dt>'', initial_step_size)] @ context))\<rparr>"

text \<open>
  Modelled from the spec: reading a variable from the persistent store or from the
  locals, by namespace; the source is missing.
\<close>

fun lookup_var :: "store \<times> store \<Rightarrow> var \<Rightarrow> int option" where
  "lookup_var (ps, ls) (Persistent i) = map_of ps i"
| "lookup_var (ps, ls) (Local i) = map_of ls i"

text \<open>
  Modelled from the spec: storing a value under the assigned identifier (section 4.3,
  step 4, \<open>Assign\<close>); the source is missing.
\<close>

fun assign_var :: "store \<times> store \<Rightarrow> var \<Rightarrow> int \<Rightarrow> store \<times> store" where
  "assign_var (ps, ls) (Persistent i) x = ((i, x) # ps, ls)"
| "assign_var (ps, ls) (Local i) x = (ps, (i, x) # ls)"

text \<open>
  Modelled from the spec: how the actions of a state end, whose source is missing: they
  run to the end, or a failure signal unwinds them, or an expression has no value
  (which the contract does not cover).
\<close>

datatype outcome = Done "store \<times> store" | Signalled failure "store \<times> store" | Stuck

text \<open>
  Modelled from the spec: executing the actions of a state (section 4.3, step 4), whose
  source is missing. The events are produced in order; \<open>FailStep\<close> and \<open>Raise\<close> unwind
  without executing the remaining actions.
\<close>

fun exec_actions :: "action list \<Rightarrow> store \<times> store \<Rightarrow> event list \<times> outcome" where
  "exec_actions [] s = ([], Done s)"
| "exec_actions (Store v e # rest) s =
     (case eval_expr (lookup_var s) e of
        None \<Rightarrow> ([], Stuck)
      | Some x \<Rightarrow> exec_actions rest (assign_var s v x))"
| "exec_actions (Branch c t e # rest) s =
     (case eval_expr (lookup_var s) c of
        None \<Rightarrow> ([], Stuck)
      | Some b \<Rightarrow>
          (case (if b \<noteq> 0 then exec_actions t s else exec_actions e s) of
             (evs, Done s') \<Rightarrow> (case exec_actions rest s' of (evs', r) \<Rightarrow> (evs @ evs', r))
           | (evs, r) \<Rightarrow> (evs, r)))"
| "exec_actions (Yield tm tid e cid # rest) s =
     (case eval_expr (lookup_var s) e of
        None \<Rightarrow> ([], Stuck)
      | Some x \<Rightarrow> (case exec_actions rest s of (evs, r) \<Rightarrow> (Emitted cid tid tm x # evs, r)))"
| "exec_actions (FailStep # rest) s = ([], Signalled StepFailed s)"
| "exec_actions (Raise k m # rest) s = ([], Signalled (Raised k m) s)"

text \<open>
  Modelled from the spec: how a call of \<open>run_single_step\<close> ends (section 4.4), whose
  source is missing: the state completed, or a failure signal surfaced, or the call is
  outside the contract.
\<close>

datatype ending = Completed | Failed failure | Undefined

text \<open>
  Modelled from the spec: \<open>run_single_step()\<close> (section 4.4), whose source is missing.
  It executes the current state: zero or more \<open>Emit\<close> events, then
  \<open>StateCompleted(state_name)\<close>, then the current state advances to \<open>next_state\<close>. On
  a failure signal there is no \<open>StateCompleted\<close> and the current state does not
  advance. The locals start empty and are discarded.
\<close>

definition run_single_step :: "stepper_code \<Rightarrow> stepper \<Rightarrow> event list \<times> ending \<times> stepper" where
  "run_single_step code st =
     (case map_of (code_states code) (current_state st) of
        None \<Rightarrow> ([], Undefined, st)
      | Some sc \<Rightarrow>
          (case exec_actions (actions sc) (persistent st, []) of
             (evs, Done (ps, ls)) \<Rightarrow>
               (evs @ [StateCompleted (current_state st)], Completed,
                \<lparr>current_state = successor sc, persistent = ps\<rparr>)
           | (evs, Signalled f (ps, ls)) \<Rightarrow> (evs, Failed f, st\<lparr>persistent := ps\<rparr>)
           | (evs, Stuck) \<Rightarrow> (evs, Undefined, st)))"

text \<open>
  Modelled from the spec: what a run hands to its caller, one at a time (section 5),
  whose source is missing: an event or a failure signal.
\<close>

datatype item = Event event | Signal failure

text \<open>
  Modelled from the spec: \<open>run(max_steps)\<close> (section 4.4), whose source is missing: it
  invokes \<open>run_single_step\<close> up to \<open>max_steps\<close> times and stops early if a fatal error
  terminates the sequence.
\<close>

fun run :: "nat \<Rightarrow> stepper_code \<Rightarrow> stepper \<Rightarrow> item list" where
  "run 0 code st = []"
| "run (Suc max_steps) code st =
     (case run_single_step code st of
        (evs, Completed, st') \<Rightarrow> map Event evs @ run max_steps code st'
      | (evs, Failed StepFailed, st') \<Rightarrow> map Event evs @ Signal StepFailed # run max_steps code st'
      | (evs, Failed (Raised k m), st') \<Rightarrow> map Event evs @ [Signal (Raised k m)]
      | (evs, Undefined, st') \<Rightarrow> map Event evs)"

subsection \<open>One target\<close>

text \<open>
  Modelled from the spec: one target's notion of a legal identifier (section 4.3, step
  3), whose source is missing: letters, digits and underscores, not starting with a
  digit. The theorems below hold for every notion of legality; this one runs the
  examples.
\<close>

definition identifier_char :: "char \<Rightarrow> bool" where
  "identifier_char c =
     (c \<in> set ''abcdefghijklmnopqrstuvwxyzABCDEFGHIJKLMNOPQRSTUVWXYZ0123456789_'')"

definition legal_identifier :: "string \<Rightarrow> bool" where
  "legal_identifier s =
     (case s of
        [] \<Rightarrow> False
      | c # cs \<Rightarrow> list_all identifier_char s \<and> c \<notin> set ''0123456789'')"

text \<open>
  Modelled from the spec: one way of sanitizing a name (section 4.3, step 3), whose
  source is missing: the characters that no identifier may hold are dropped. The
  theorems below hold for every sanitizer; this one runs the examples.
\<close>

definition sanitize_name :: "string \<Rightarrow> string" where
  "sanitize_name s = filter identifier_char s"

section \<open>Properties\<close>

subsection \<open>Decimal rendering is injective\<close>

lemma digit_char_inj:
  assumes "a < 10" and "b < 10" and "digit_char a = digit_char b"
  shows "a = b"
proof -
  have a: "a \<in> {0,1,2,3,4,5,6,7,8,9}" using assms(1) by auto
  have b: "b \<in> {0,1,2,3,4,5,6,7,8,9}" using assms(2) by auto
  from a b assms(3) show ?thesis
    by (auto simp: digit_char_def)
qed

lemma str_not_Nil: "str n \<noteq> []"
  by (subst str.simps) simp

lemma str_inj: "str n = str m \<Longrightarrow> n = m"
proof (induction n arbitrary: m rule: str.induct)
  case (1 n)
  show ?case
  proof (cases "n < 10")
    case small_n: True
    show ?thesis
    proof (cases "m < 10")
      case True
      with small_n "1.prems" show ?thesis
        by (subst (asm) str.simps, subst (asm) (2) str.simps) (simp add: digit_char_inj)
    next
      case False
      have "str m = str (m div 10) @ [digit_char (m mod 10)]"
        using False by (subst str.simps) simp
      moreover have "str n = [digit_char n]"
        using small_n by (subst str.simps) simp
      ultimately show ?thesis
        using "1.prems" str_not_Nil [of "m div 10"] by simp
    qed
  next
    case big_n: False
    have n_eq: "str n = str (n div 10) @ [digit_char (n mod 10)]"
      using big_n by (subst str.simps) simp
    show ?thesis
    proof (cases "m < 10")
      case True
      have "str m = [digit_char m]"
        using True by (subst str.simps) simp
      with n_eq "1.prems" str_not_Nil [of "n div 10"] show ?thesis by simp
    next
      case False
      have m_eq: "str m = str (m div 10) @ [digit_char (m mod 10)]"
        using False by (subst str.simps) simp
      from n_eq m_eq "1.prems"
      have front: "str (n div 10) = str (m div 10)"
        and tail_eq: "digit_char (n mod 10) = digit_char (m mod 10)" by simp_all
      from "1.IH" [OF big_n front] have "n div 10 = m div 10" .
      moreover from tail_eq have "n mod 10 = m mod 10"
        by (intro digit_char_inj) simp_all
      ultimately show ?thesis
        by (metis div_mult_mod_eq)
    qed
  qed
qed

subsection \<open>Unique names\<close>

lemma is_in_name_sets_iff: "is_in_name_sets name_sets var \<longleftrightarrow> var \<in> \<Union>(set name_sets)"
  by (induction name_sets) auto

lemma exists_free_suffix:
  assumes "finite A"
  shows "\<exists>n. p @ str n \<notin> A"
proof (rule ccontr)
  assume "\<not> (\<exists>n. p @ str n \<notin> A)"
  then have "range (\<lambda>n. p @ str n) \<subseteq> A" by auto
  with assms have "finite (range (\<lambda>n. p @ str n))" by (rule rev_finite_subset)
  moreover have "inj (\<lambda>n. p @ str n)"
    by (rule injI) (simp add: str_inj)
  ultimately show False
    using finite_imageD infinite_UNIV_nat by blast
qed

lemma probe_suffix_reaches:
  assumes "s \<le> n"
    and "\<forall>k. s \<le> k \<and> k < n \<longrightarrow> is_in_name_sets name_sets (p @ str k)"
    and "\<not> is_in_name_sets name_sets (p @ str n)"
  shows "probe_suffix name_sets p s = Some (p @ str n)"
  using assms
proof (induction "n - s" arbitrary: s)
  case 0
  then have "s = n" by simp
  with "0.prems"(3) show ?case
    by (subst probe_suffix.simps) simp
next
  case (Suc d)
  then have lt: "s < n" by simp
  with Suc.prems(2) have here: "is_in_name_sets name_sets (p @ str s)" by simp
  have "probe_suffix name_sets p (s + 1) = Some (p @ str n)"
  proof (rule Suc.hyps(1))
    show "d = n - (s + 1)" using Suc.hyps(2) by simp
    show "s + 1 \<le> n" using lt by simp
    show "\<forall>k. s + 1 \<le> k \<and> k < n \<longrightarrow> is_in_name_sets name_sets (p @ str k)"
      using Suc.prems(2) by simp
    show "\<not> is_in_name_sets name_sets (p @ str n)" by (rule Suc.prems(3))
  qed
  with here show ?case
    by (subst probe_suffix.simps) simp
qed

lemma probe_suffix_least:
  assumes "finite (\<Union>(set name_sets))"
  shows "\<exists>n. probe_suffix name_sets p 0 = Some (p @ str n)
            \<and> p @ str n \<notin> \<Union>(set name_sets)
            \<and> (\<forall>m<n. p @ str m \<in> \<Union>(set name_sets))"
proof -
  define free where "free n \<longleftrightarrow> p @ str n \<notin> \<Union>(set name_sets)" for n
  from exists_free_suffix [OF assms] obtain n0 where "free n0"
    unfolding free_def by blast
  define n where "n = (LEAST k. free k)"
  have free_n: "free n" unfolding n_def using \<open>free n0\<close> by (rule LeastI)
  have below: "\<not> free m" if "m < n" for m
    using that unfolding n_def by (rule not_less_Least)
  have "probe_suffix name_sets p 0 = Some (p @ str n)"
    using free_n below
    by (intro probe_suffix_reaches) (auto simp: is_in_name_sets_iff free_def)
  with free_n below show ?thesis
    unfolding free_def by blast
qed

lemma get_unique_name_fresh:
  assumes "finite (\<Union>(set name_sets))"
  shows "\<exists>r. get_unique_name p name_sets = Some r \<and> r \<notin> \<Union>(set name_sets)"
proof (cases "p \<in> \<Union>(set name_sets)")
  case True
  with probe_suffix_least [OF assms, of p] show ?thesis
    by (auto simp: get_unique_name_def is_in_name_sets_iff)
next
  case False
  then show ?thesis by (simp add: get_unique_name_def is_in_name_sets_iff)
qed

text \<open>
  Claim C1. For a prefix \<open>p\<close> and finitely many finite name sets,
  \<^verbatim>\<open>get_unique_name\<close> returns \<open>p\<close> itself when \<open>p\<close> is in none of the name sets;
  otherwise it returns \<open>p\<close> followed by the decimal rendering of the smallest \<open>n \<ge> 0\<close>
  for which \<open>p + str(n)\<close> is in none of them. In both cases the result begins with \<open>p\<close>
  and is in none of the name sets.
\<close>

theorem get_unique_name_correct:
  assumes "\<forall>name_set \<in> set name_sets. finite name_set"
  shows "(p \<notin> \<Union>(set name_sets) \<longrightarrow> get_unique_name p name_sets = Some p)
       \<and> (p \<in> \<Union>(set name_sets) \<longrightarrow>
            (\<exists>n. get_unique_name p name_sets = Some (p @ str n)
                 \<and> p @ str n \<notin> \<Union>(set name_sets)
                 \<and> (\<forall>m<n. p @ str m \<in> \<Union>(set name_sets))))
       \<and> (\<exists>r. get_unique_name p name_sets = Some r
                 \<and> startswith r p \<and> r \<notin> \<Union>(set name_sets))"
proof -
  from assms have fin: "finite (\<Union>(set name_sets))" by simp
  from probe_suffix_least [OF fin, of p] obtain n
    where n: "probe_suffix name_sets p 0 = Some (p @ str n)"
      "p @ str n \<notin> \<Union>(set name_sets)" "\<forall>m<n. p @ str m \<in> \<Union>(set name_sets)"
    by blast
  have unused: "p \<notin> \<Union>(set name_sets) \<longrightarrow> get_unique_name p name_sets = Some p"
    by (simp add: get_unique_name_def is_in_name_sets_iff)
  have used: "p \<in> \<Union>(set name_sets) \<longrightarrow>
      (\<exists>n. get_unique_name p name_sets = Some (p @ str n)
           \<and> p @ str n \<notin> \<Union>(set name_sets)
           \<and> (\<forall>m<n. p @ str m \<in> \<Union>(set name_sets)))"
    using n by (auto simp: get_unique_name_def is_in_name_sets_iff)
  have either: "\<exists>r. get_unique_name p name_sets = Some r
      \<and> startswith r p \<and> r \<notin> \<Union>(set name_sets)"
  proof (cases "p \<in> \<Union>(set name_sets)")
    case True
    with used obtain k where "get_unique_name p name_sets = Some (p @ str k)"
      and "p @ str k \<notin> \<Union>(set name_sets)" by blast
    then show ?thesis by (simp add: startswith_def)
  next
    case False
    with unused show ?thesis by (simp add: startswith_def)
  qed
  from unused used either show ?thesis by blast
qed

theorem get_unique_name_correct_witness:
  "finite {''y'', ''y0''} \<and> finite {''y1''}
   \<and> get_unique_name ''y'' [{''y'', ''y0''}, {''y1''}] = Some ''y2''
   \<and> (\<exists>r. get_unique_name ''y'' [{''y'', ''y0''}, {''y1''}] = Some r
            \<and> startswith r ''y'' \<and> r \<notin> \<Union>(set [{''y'', ''y0''}, {''y1''}]))"
proof -
  have fin: "\<forall>name_set \<in> set [{''y'', ''y0''}, {''y1''}]. finite name_set" by simp
  have val: "get_unique_name ''y'' [{''y'', ''y0''}, {''y1''}] = Some ''y2''" by code_simp
  from get_unique_name_correct [OF fin, of "''y''"] val show ?thesis by simp
qed

text \<open>
  Claim C8. On finitely many finite name sets \<^verbatim>\<open>get_unique_name\<close> terminates: the
  probing loop started at suffix 0 returns, at some \<open>n\<close> for which \<open>prefix + str(n)\<close> is
  in none of the name sets, and so the whole call returns.
\<close>

theorem get_unique_name_terminates:
  assumes "\<forall>name_set \<in> set name_sets. finite name_set"
  shows "(\<exists>n. probe_suffix name_sets p 0 = Some (p @ str n)
              \<and> \<not> is_in_name_sets name_sets (p @ str n))
       \<and> (\<exists>r. get_unique_name p name_sets = Some r)"
proof -
  from assms have "finite (\<Union>(set name_sets))" by simp
  from probe_suffix_least [OF this, of p] obtain n
    where n: "probe_suffix name_sets p 0 = Some (p @ str n)"
      "p @ str n \<notin> \<Union>(set name_sets)" by blast
  then have "\<exists>n. probe_suffix name_sets p 0 = Some (p @ str n)
      \<and> \<not> is_in_name_sets name_sets (p @ str n)"
    by (auto simp: is_in_name_sets_iff)
  moreover from n(1) have "\<exists>r. get_unique_name p name_sets = Some r"
    by (simp add: get_unique_name_def)
  ultimately show ?thesis by blast
qed

theorem get_unique_name_terminates_witness:
  "finite {''x'', ''x0'', ''x1''}
   \<and> (\<exists>n. probe_suffix [{''x'', ''x0'', ''x1''}] ''x'' 0 = Some (''x'' @ str n)
              \<and> \<not> is_in_name_sets [{''x'', ''x0'', ''x1''}] (''x'' @ str n))
   \<and> (\<exists>r. get_unique_name ''x'' [{''x'', ''x0'', ''x1''}] = Some r)"
proof -
  have fin: "\<forall>name_set \<in> set [{''x'', ''x0'', ''x1''}]. finite name_set" by simp
  from get_unique_name_terminates [OF fin, of "''x''"] show ?thesis by simp
qed

subsection \<open>Classification of state variables\<close>

lemma startswith_iff: "startswith s p \<longleftrightarrow> (\<exists>rest. s = p @ rest)"
proof
  assume "startswith s p"
  then have "s = p @ drop (length p) s"
    unfolding startswith_def by (metis append_take_drop_id)
  then show "\<exists>rest. s = p @ rest" ..
next
  assume "\<exists>rest. s = p @ rest"
  then show "startswith s p" by (auto simp: startswith_def)
qed

text \<open>
  Claim C4. \<^verbatim>\<open>is_state_variable\<close> is a total classification by literal prefix: it
  answers True exactly for the names \<open><t>\<close> and \<open><dt>\<close> and for the names that begin with
  \<open><state>\<close>, \<open><p>\<close>, \<open><ret_time_id>\<close>, \<open><ret_time>\<close> or \<open><ret_state>\<close>, and False for
  every other name; among those are the function symbols (\<open><func>...\<close>) and the plain
  locals, whose names do not begin with \<open><\<close>.
\<close>

theorem is_state_variable_classification:
  "(is_state_variable var \<longleftrightarrow>
      var = ''<t>'' \<or> var = ''<dt>''
      \<or> (\<exists>rest. var = ''<state>'' @ rest)
      \<or> (\<exists>rest. var = ''<p>'' @ rest)
      \<or> (\<exists>rest. var = ''<ret_time_id>'' @ rest)
      \<or> (\<exists>rest. var = ''<ret_time>'' @ rest)
      \<or> (\<exists>rest. var = ''<ret_state>'' @ rest))
   \<and> \<not> is_state_variable (''<func>'' @ name)
   \<and> (\<forall>c rest. c \<noteq> CHR ''<'' \<longrightarrow> \<not> is_state_variable (c # rest))
   \<and> \<not> is_state_variable []"
proof -
  have "is_state_variable var \<longleftrightarrow>
      var = ''<t>'' \<or> var = ''<dt>''
      \<or> (\<exists>rest. var = ''<state>'' @ rest)
      \<or> (\<exists>rest. var = ''<p>'' @ rest)
      \<or> (\<exists>rest. var = ''<ret_time_id>'' @ rest)
      \<or> (\<exists>rest. var = ''<ret_time>'' @ rest)
      \<or> (\<exists>rest. var = ''<ret_state>'' @ rest)"
    unfolding is_state_variable_def startswith_iff by auto
  moreover have "\<not> is_state_variable (''<func>'' @ name)"
    by (simp add: is_state_variable_def startswith_def)
  moreover have "\<forall>c rest. c \<noteq> CHR ''<'' \<longrightarrow> \<not> is_state_variable (c # rest)"
    by (auto simp: is_state_variable_def startswith_def)
  moreover have "\<not> is_state_variable []"
    by (simp add: is_state_variable_def startswith_def)
  ultimately show ?thesis by blast
qed

theorem is_state_variable_classification_witness:
  "is_state_variable ''<state>y'' \<and> is_state_variable ''<ret_time_id>y''
   \<and> \<not> is_state_variable ''<func>y''
   \<and> (CHR ''y'' \<noteq> CHR ''<'' \<and> \<not> is_state_variable ''y^'')"
proof -
  have "is_state_variable ''<state>y''"
    using is_state_variable_classification [of "''<state>y''" "''y''"] by simp
  moreover have "is_state_variable ''<ret_time_id>y''"
    using is_state_variable_classification [of "''<ret_time_id>y''" "''y''"] by simp
  moreover have "\<not> is_state_variable ''<func>y''"
    using is_state_variable_classification [of "''y''" "''y''"] by simp
  moreover have "\<not> is_state_variable ''y^''"
    using is_state_variable_classification [of "''y''" "''y''"] by simp
  ultimately show ?thesis by simp
qed

subsection \<open>Argument resolution\<close>

lemma map_of_remove_key: "map_of (remove_key k d) k' = (if k' = k then None else map_of d k')"
  by (induction d) (auto simp: remove_key_def)

lemma keys_remove_key: "fst ` set (remove_key k d) = fst ` set d - {k}"
  by (auto simp: remove_key_def image_iff)

lemma resolve_loop_frame:
  "resolve_loop h dd c ps acc = (h', res) \<Longrightarrow>
     length h' = length h \<and> (\<forall>r. r \<noteq> c \<longrightarrow> h' ! r = h ! r)"
proof (induction ps arbitrary: h acc)
  case Nil
  then show ?case by simp
next
  case (Cons p ps)
  obtain i name where p: "p = (i, name)" by (cases p)
  show ?case
    using Cons.prems Cons.IH
    unfolding p
    by (fastforce simp: dict_pop_def dict_getitem_def split: if_splits option.splits sum.splits)
qed

lemma step_both:
  assumes "c < length h" and "both_given_at (h ! c) i name"
  shows "\<exists>h1. resolve_loop h dd c ((i, name) # ps) acc = (h1, Inl (TypeError_both_given i name))"
  using assms
  by (auto simp: both_given_at_def dict_contains_def dict_pop_def map_of_remove_key)

lemma step_unbound:
  assumes "unbound_at (h ! c) (h ! dd) i name"
  shows "resolve_loop h dd c ((i, name) # ps) acc = (h, Inl (TypeError_not_specified name))"
  using assms
  by (auto simp: unbound_at_def dict_contains_def)

lemma step_continue:
  assumes "c < length h" and "c \<noteq> dd"
    and "\<not> both_given_at (h ! c) i name" and "\<not> unbound_at (h ! c) (h ! dd) i name"
  shows "\<exists>C' v.
      resolve_loop h dd c ((i, name) # ps) acc = resolve_loop (h[c := C']) dd c ps (acc @ [v])
    \<and> bound_value (h ! c) (h ! dd) i name = Some v
    \<and> (\<forall>k. k \<noteq> Pos (int i) \<and> k \<noteq> Kw name \<longrightarrow> map_of C' k = map_of (h ! c) k)
    \<and> fst ` set C' = fst ` set (h ! c) - {Pos (int i), Kw name}"
proof -
  let ?C = "h ! c"
  consider (pos) v where "map_of ?C (Pos (int i)) = Some v" "map_of ?C (Kw name) = None"
    | (kw) v where "map_of ?C (Pos (int i)) = None" "map_of ?C (Kw name) = Some v"
    | (dflt) v where "map_of ?C (Pos (int i)) = None" "map_of ?C (Kw name) = None"
        "map_of (h ! dd) (Kw name) = Some v"
    using assms(3,4) unfolding both_given_at_def unbound_at_def by (metis not_Some_eq)
  then show ?thesis
  proof cases
    case pos
    let ?C' = "remove_key (Pos (int i)) ?C"
    have "resolve_loop h dd c ((i, name) # ps) acc = resolve_loop (h[c := ?C']) dd c ps (acc @ [v])"
      using pos assms(1) by (simp add: dict_contains_def dict_pop_def map_of_remove_key)
    moreover have "bound_value ?C (h ! dd) i name = Some v"
      using pos by (simp add: bound_value_def)
    moreover have "\<forall>k. k \<noteq> Pos (int i) \<and> k \<noteq> Kw name \<longrightarrow> map_of ?C' k = map_of ?C k"
      by (simp add: map_of_remove_key)
    moreover have "fst ` set ?C' = fst ` set ?C - {Pos (int i), Kw name}"
      using pos(2) by (force simp: keys_remove_key map_of_eq_None_iff)
    ultimately show ?thesis by blast
  next
    case kw
    let ?C' = "remove_key (Kw name) ?C"
    have "resolve_loop h dd c ((i, name) # ps) acc = resolve_loop (h[c := ?C']) dd c ps (acc @ [v])"
      using kw assms(1) by (simp add: dict_contains_def dict_pop_def map_of_remove_key)
    moreover have "bound_value ?C (h ! dd) i name = Some v"
      using kw by (simp add: bound_value_def)
    moreover have "\<forall>k. k \<noteq> Pos (int i) \<and> k \<noteq> Kw name \<longrightarrow> map_of ?C' k = map_of ?C k"
      by (simp add: map_of_remove_key)
    moreover have "fst ` set ?C' = fst ` set ?C - {Pos (int i), Kw name}"
      using kw(1) by (force simp: keys_remove_key map_of_eq_None_iff)
    ultimately show ?thesis by blast
  next
    case dflt
    have "resolve_loop h dd c ((i, name) # ps) acc = resolve_loop (h[c := ?C]) dd c ps (acc @ [v])"
      using dflt by (simp add: dict_contains_def dict_getitem_def)
    moreover have "bound_value ?C (h ! dd) i name = Some v"
      using dflt by (simp add: bound_value_def)
    moreover have "fst ` set ?C = fst ` set ?C - {Pos (int i), Kw name}"
      using dflt(1,2) by (force simp: map_of_eq_None_iff)
    ultimately show ?thesis by blast
  qed
qed

lemma resolve_loop_result:
  assumes "c < length h" and "c \<noteq> dd"
    and "distinct (map fst ps)" and "distinct (map snd ps)"
    and "resolve_loop h dd c ps acc = (h', res)"
  shows "(\<forall>e. res = Inl e \<longrightarrow>
            (\<exists>i name. (i, name) \<in> set ps
               \<and> (e = TypeError_both_given i name \<and> both_given_at (h ! c) i name
                  \<or> e = TypeError_not_specified name \<and> unbound_at (h ! c) (h ! dd) i name)))
       \<and> (\<forall>args. res = Inr args \<longrightarrow>
            (\<forall>i name. (i, name) \<in> set ps \<longrightarrow>
                \<not> both_given_at (h ! c) i name \<and> \<not> unbound_at (h ! c) (h ! dd) i name)
            \<and> args = acc @ map (\<lambda>p. the (bound_value (h ! c) (h ! dd) (fst p) (snd p))) ps
            \<and> fst ` set (h' ! c)
                = fst ` set (h ! c) - (\<lambda>p. Pos (int (fst p))) ` set ps - (\<lambda>p. Kw (snd p)) ` set ps)"
  using assms
proof (induction ps arbitrary: h acc)
  case Nil
  then show ?case by auto
next
  case (Cons p ps)
  obtain i name where p: "p = (i, name)" by (cases p)
  from Cons.prems(3,4) have d: "distinct (map fst ps)" "distinct (map snd ps)"
    and fresh: "\<And>j n. (j, n) \<in> set ps \<Longrightarrow> j \<noteq> i \<and> n \<noteq> name"
    unfolding p by (auto simp: image_iff)
  let ?C = "h ! c" and ?F = "h ! dd"
  show ?case
  proof (cases "both_given_at ?C i name \<or> unbound_at ?C ?F i name")
    case True
    then show ?thesis
    proof
      assume b: "both_given_at ?C i name"
      from step_both [OF Cons.prems(1) b, of dd ps acc] Cons.prems(5)
      have "res = Inl (TypeError_both_given i name)" unfolding p by auto
      with b show ?thesis unfolding p by auto
    next
      assume u: "unbound_at ?C ?F i name"
      from step_unbound [OF u, of ps acc] Cons.prems(5)
      have "res = Inl (TypeError_not_specified name)" unfolding p by auto
      with u show ?thesis unfolding p by auto
    qed
  next
    case False
    then have nb: "\<not> both_given_at ?C i name" and nu: "\<not> unbound_at ?C ?F i name" by auto
    from step_continue [OF Cons.prems(1,2) nb nu, of ps acc] obtain C' v where
      step: "resolve_loop h dd c ((i, name) # ps) acc = resolve_loop (h[c := C']) dd c ps (acc @ [v])"
      and bv: "bound_value ?C ?F i name = Some v"
      and same: "\<And>k. k \<noteq> Pos (int i) \<Longrightarrow> k \<noteq> Kw name \<Longrightarrow> map_of C' k = map_of ?C k"
      and keys: "fst ` set C' = fst ` set ?C - {Pos (int i), Kw name}"
      by blast
    let ?h1 = "h[c := C']"
    have len: "c < length ?h1" using Cons.prems(1) by simp
    have C1: "?h1 ! c = C'" using Cons.prems(1) by simp
    have F1: "?h1 ! dd = ?F" using Cons.prems(2) by simp
    have run: "resolve_loop ?h1 dd c ps (acc @ [v]) = (h', res)"
      using step Cons.prems(5) unfolding p by simp
    note IH = Cons.IH [OF len Cons.prems(2) d run, unfolded C1 F1]
    have eqs: "both_given_at C' j n = both_given_at ?C j n"
        "unbound_at C' ?F j n = unbound_at ?C ?F j n"
        "bound_value C' ?F j n = bound_value ?C ?F j n"
      if "(j, n) \<in> set ps" for j n
      using fresh [OF that] same [of "Pos (int j)"] same [of "Kw n"]
      by (simp_all add: both_given_at_def unbound_at_def bound_value_def)
    have part1: "\<exists>i' name'. (i', name') \<in> set (p # ps)
               \<and> (e = TypeError_both_given i' name' \<and> both_given_at ?C i' name'
                  \<or> e = TypeError_not_specified name' \<and> unbound_at ?C ?F i' name')"
      if "res = Inl e" for e
    proof -
      from IH that obtain j n where "(j, n) \<in> set ps"
        and "e = TypeError_both_given j n \<and> both_given_at C' j n
           \<or> e = TypeError_not_specified n \<and> unbound_at C' ?F j n" by blast
      then show ?thesis using eqs [of j n] by auto
    qed
    have part2: "\<not> both_given_at ?C j n \<and> \<not> unbound_at ?C ?F j n"
      if "res = Inr args" "(j, n) \<in> set (p # ps)" for args j n
    proof (cases "(j, n) = p")
      case True
      then show ?thesis using nb nu p by simp
    next
      case False
      with that(2) have "(j, n) \<in> set ps" by simp
      with IH that(1) eqs [of j n] show ?thesis by blast
    qed
    have part3: "args = acc @ map (\<lambda>p. the (bound_value ?C ?F (fst p) (snd p))) (p # ps)"
      if "res = Inr args" for args
    proof -
      from IH that
      have "args = (acc @ [v]) @ map (\<lambda>p. the (bound_value C' ?F (fst p) (snd p))) ps" by blast
      moreover have "map (\<lambda>p. the (bound_value C' ?F (fst p) (snd p))) ps
          = map (\<lambda>p. the (bound_value ?C ?F (fst p) (snd p))) ps"
      proof (rule map_cong [OF refl])
        fix q assume "q \<in> set ps"
        then have "(fst q, snd q) \<in> set ps" by simp
        from eqs(3) [OF this]
        show "the (bound_value C' ?F (fst q) (snd q)) = the (bound_value ?C ?F (fst q) (snd q))"
          by simp
      qed
      ultimately show ?thesis using bv p by simp
    qed
    have part4: "fst ` set (h' ! c)
        = fst ` set ?C - (\<lambda>p. Pos (int (fst p))) ` set (p # ps) - (\<lambda>p. Kw (snd p)) ` set (p # ps)"
      if "res = Inr args" for args
    proof -
      from IH that
      have "fst ` set (h' ! c)
          = fst ` set C' - (\<lambda>p. Pos (int (fst p))) ` set ps - (\<lambda>p. Kw (snd p)) ` set ps" by blast
      then show ?thesis unfolding keys p by auto
    qed
    from part1 part2 part3 part4 show ?thesis by blast
  qed
qed

lemma resolve_args_cases:
  assumes "distinct arg_names" and "arg_dict < length h" and "default_dict < length h"
  shows "(\<forall>e. snd (resolve_args h arg_names default_dict arg_dict) = Inl e \<longrightarrow>
            is_TypeError e
            \<and> (specified_twice arg_names (h ! arg_dict)
               \<or> not_specified arg_names (h ! default_dict) (h ! arg_dict)
               \<or> leftover arg_names (h ! arg_dict)))
       \<and> (\<forall>args. snd (resolve_args h arg_names default_dict arg_dict) = Inr args \<longrightarrow>
            \<not> specified_twice arg_names (h ! arg_dict)
            \<and> \<not> not_specified arg_names (h ! default_dict) (h ! arg_dict)
            \<and> \<not> leftover arg_names (h ! arg_dict)
            \<and> args = map (\<lambda>p. the (bound_value (h ! arg_dict) (h ! default_dict) (fst p) (snd p)))
                        (enumerate 0 arg_names))"
proof -
  let ?D = "h ! arg_dict" and ?F = "h ! default_dict"
  let ?h1 = "h @ [?D]" and ?c = "length h"
  let ?ps = "enumerate 0 arg_names"
  obtain h2 r where loop: "resolve_loop ?h1 default_dict ?c ?ps [] = (h2, r)"
    by (cases "resolve_loop ?h1 default_dict ?c ?ps []")
  have c: "?c < length ?h1" and ne: "?c \<noteq> default_dict" using assms(3) by simp_all
  have d1: "distinct (map fst ?ps)" by (simp add: map_fst_enumerate)
  have d2: "distinct (map snd ?ps)" using assms(1) by (simp add: map_snd_enumerate)
  have C: "?h1 ! ?c = ?D" by simp
  have F: "?h1 ! default_dict = ?F" using assms(3) by (simp add: nth_append)
  note res = resolve_loop_result [OF c ne d1 d2 loop, unfolded C F]
  have twice_iff: "specified_twice arg_names ?D
      \<longleftrightarrow> (\<exists>i name. (i, name) \<in> set ?ps \<and> both_given_at ?D i name)"
    by (auto simp: specified_twice_def list_ex_iff)
  have unspec_iff: "not_specified arg_names ?F ?D
      \<longleftrightarrow> (\<exists>i name. (i, name) \<in> set ?ps \<and> unbound_at ?D ?F i name)"
    by (auto simp: not_specified_def list_ex_iff)
  have run: "resolve_args h arg_names default_dict arg_dict =
      (case r of Inl e \<Rightarrow> (h2, Inl e)
       | Inr args \<Rightarrow> if h2 ! ?c \<noteq> [] then (h2, Inl (TypeError_leftover (map fst (h2 ! ?c))))
                      else (h2, Inr args))"
    using loop
    by (simp add: resolve_args_def dict_copy_def dict_bool_def dict_keys_def split: sum.splits)
  show ?thesis
  proof (cases r)
    case (Inl e)
    with res have "is_TypeError e" and "specified_twice arg_names ?D \<or> not_specified arg_names ?F ?D"
      unfolding twice_iff unspec_iff by (auto simp: is_TypeError_def)
    with Inl run show ?thesis by auto
  next
    case (Inr args)
    with res have ok: "\<And>i name. (i, name) \<in> set ?ps \<Longrightarrow>
          \<not> both_given_at ?D i name \<and> \<not> unbound_at ?D ?F i name"
      and args: "args = map (\<lambda>p. the (bound_value ?D ?F (fst p) (snd p))) ?ps"
      and keys: "fst ` set (h2 ! ?c)
          = fst ` set ?D - (\<lambda>p. Pos (int (fst p))) ` set ?ps - (\<lambda>p. Kw (snd p)) ` set ?ps"
      by auto
    from ok have no_twice: "\<not> specified_twice arg_names ?D"
      and no_unspec: "\<not> not_specified arg_names ?F ?D"
      unfolding twice_iff unspec_iff by blast+
    have ck: "k \<in> set (consumed_key ?D i name) \<longleftrightarrow>
        k = Pos (int i) \<and> map_of ?D (Pos (int i)) \<noteq> None
        \<or> k = Kw name \<and> map_of ?D (Pos (int i)) = None \<and> map_of ?D (Kw name) \<noteq> None"
      for k i name
      by (auto simp: consumed_key_def)
    have in_consumed: "k \<in> set (consumed_keys arg_names ?D) \<longleftrightarrow>
        (\<exists>i name. (i, name) \<in> set ?ps \<and> k \<in> set (consumed_key ?D i name))" for k
      unfolding consumed_keys_def by auto
    have consumed_iff: "k \<in> set (consumed_keys arg_names ?D) \<longleftrightarrow>
        k \<in> (\<lambda>p. Pos (int (fst p))) ` set ?ps \<or> k \<in> (\<lambda>p. Kw (snd p)) ` set ?ps"
      if present: "k \<in> fst ` set ?D" for k
    proof
      assume "k \<in> set (consumed_keys arg_names ?D)"
      then obtain i name where "(i, name) \<in> set ?ps" and "k = Pos (int i) \<or> k = Kw name"
        unfolding in_consumed ck by blast
      then show "k \<in> (\<lambda>p. Pos (int (fst p))) ` set ?ps \<or> k \<in> (\<lambda>p. Kw (snd p)) ` set ?ps"
        by force
    next
      assume "k \<in> (\<lambda>p. Pos (int (fst p))) ` set ?ps \<or> k \<in> (\<lambda>p. Kw (snd p)) ` set ?ps"
      then obtain i name where mem: "(i, name) \<in> set ?ps" and k: "k = Pos (int i) \<or> k = Kw name"
        by force
      from present have some: "map_of ?D k \<noteq> None" by (simp add: map_of_eq_None_iff)
      from ok [OF mem] have "\<not> both_given_at ?D i name" by simp
      with k some have "k \<in> set (consumed_key ?D i name)"
        unfolding ck both_given_at_def by blast
      with mem show "k \<in> set (consumed_keys arg_names ?D)"
        unfolding in_consumed by blast
    qed
    have left_iff: "leftover arg_names ?D \<longleftrightarrow> h2 ! ?c \<noteq> []"
    proof -
      have "leftover arg_names ?D \<longleftrightarrow>
          (\<exists>k \<in> fst ` set ?D. k \<notin> set (consumed_keys arg_names ?D))"
        unfolding leftover_def list_ex_iff by simp
      also have "\<dots> \<longleftrightarrow> (\<exists>k \<in> fst ` set ?D.
          \<not> (k \<in> (\<lambda>p. Pos (int (fst p))) ` set ?ps \<or> k \<in> (\<lambda>p. Kw (snd p)) ` set ?ps))"
        using consumed_iff by blast
      also have "\<dots> \<longleftrightarrow> fst ` set (h2 ! ?c) \<noteq> {}"
        unfolding keys by blast
      also have "\<dots> \<longleftrightarrow> h2 ! ?c \<noteq> []" by simp
      finally show ?thesis .
    qed
    show ?thesis
      using Inr run no_twice no_unspec left_iff args
      by (auto simp: is_TypeError_def)
  qed
qed

text \<open>
  Claim C2, amended. When no name occurs twice in \<^verbatim>\<open>arg_names\<close>, \<^verbatim>\<open>resolve_args\<close>
  fails if and only if some argument is given both by its positional index and by its
  name, or some name has neither a positional entry, nor a keyword entry, nor a
  default, or entries of \<^verbatim>\<open>arg_dict\<close> remain after one binding per name is consumed;
  and every failure is a \<^verbatim>\<open>TypeError\<close>. (With a repeated name the equivalence fails: see
  the counterexample.)
\<close>

theorem resolve_args_fails_iff:
  assumes "distinct arg_names" and "arg_dict < length h" and "default_dict < length h"
  shows "(isl (snd (resolve_args h arg_names default_dict arg_dict)) \<longleftrightarrow>
            specified_twice arg_names (h ! arg_dict)
            \<or> not_specified arg_names (h ! default_dict) (h ! arg_dict)
            \<or> leftover arg_names (h ! arg_dict))
       \<and> (\<forall>e. snd (resolve_args h arg_names default_dict arg_dict) = Inl e \<longrightarrow> is_TypeError e)"
  using resolve_args_cases [OF assms]
  by (cases "snd (resolve_args h arg_names default_dict arg_dict)") simp_all

theorem resolve_args_fails_iff_witness:
  "distinct [''a'', ''b'', ''c'']
   \<and> (1::nat) < length [[(Kw ''c'', 5)], [(Kw ''b'', 1::int), (Pos 0, 7), (Pos 3, 2)]]
   \<and> (0::nat) < length [[(Kw ''c'', 5)], [(Kw ''b'', 1::int), (Pos 0, 7), (Pos 3, 2)]]
   \<and> leftover [''a'', ''b'', ''c''] [(Kw ''b'', 1::int), (Pos 0, 7), (Pos 3, 2)]
   \<and> isl (snd (resolve_args [[(Kw ''c'', 5)], [(Kw ''b'', 1::int), (Pos 0, 7), (Pos 3, 2)]]
                 [''a'', ''b'', ''c''] 0 1))"
proof -
  let ?h = "[[(Kw ''c'', 5)], [(Kw ''b'', 1::int), (Pos 0, 7), (Pos 3, 2)]]"
  have d: "distinct [''a'', ''b'', ''c'']" by simp
  have r1: "(1::nat) < length ?h" and r0: "(0::nat) < length ?h" by simp_all
  have lo: "leftover [''a'', ''b'', ''c''] (?h ! 1)" by code_simp
  from resolve_args_fails_iff [OF d r1 r0] lo
  have "isl (snd (resolve_args ?h [''a'', ''b'', ''c''] 0 1))" by blast
  with d r1 r0 lo show ?thesis by simp
qed

text \<open>
  Claim C2 as stated, without the condition on \<^verbatim>\<open>arg_names\<close>, fails:
  \<^verbatim>\<open>resolve_args(['a', 'a'], {}, {'a': 1})\<close> raises "argument 'a' not specified" although
  none of the three conditions holds of the dictionaries passed in. The first \<^verbatim>\<open>'a'\<close>
  pops the keyword entry and the second finds nothing.
\<close>

theorem resolve_args_fails_iff_counterexample:
  "snd (resolve_args [[], [(Kw ''a'', 1::int)]] [''a'', ''a''] 0 1)
     = Inl (TypeError_not_specified ''a'')
   \<and> \<not> specified_twice [''a'', ''a''] [(Kw ''a'', 1::int)]
   \<and> \<not> not_specified [''a'', ''a''] [] [(Kw ''a'', 1::int)]
   \<and> \<not> leftover [''a'', ''a''] [(Kw ''a'', 1::int)]"
  by code_simp

text \<open>
  Claim C3, amended. When no name occurs twice in \<^verbatim>\<open>arg_names\<close> and \<^verbatim>\<open>resolve_args\<close>
  succeeds, it returns exactly \<open>len(arg_names)\<close> values in the order of \<^verbatim>\<open>arg_names\<close>,
  and the value at position \<open>i\<close> is \<^verbatim>\<open>arg_dict[i]\<close> if the positional key is present,
  else \<^verbatim>\<open>arg_dict[name]\<close> if the keyword key is present, else \<^verbatim>\<open>default_dict[name]\<close>.
\<close>

theorem resolve_args_values:
  assumes "distinct arg_names" and "arg_dict < length h" and "default_dict < length h"
    and "snd (resolve_args h arg_names default_dict arg_dict) = Inr args"
  shows "length args = length arg_names
       \<and> (\<forall>i < length arg_names.
            bound_value (h ! arg_dict) (h ! default_dict) i (arg_names ! i) = Some (args ! i))"
proof -
  let ?D = "h ! arg_dict" and ?F = "h ! default_dict"
  from resolve_args_cases [OF assms(1-3)] assms(4)
  have unspec: "\<not> not_specified arg_names ?F ?D"
    and args: "args = map (\<lambda>p. the (bound_value ?D ?F (fst p) (snd p))) (enumerate 0 arg_names)"
    by blast+
  have len: "length args = length arg_names" unfolding args by simp
  have "bound_value ?D ?F i (arg_names ! i) = Some (args ! i)" if "i < length arg_names" for i
  proof -
    have "(i, arg_names ! i) \<in> set (enumerate 0 arg_names)"
      using that by (simp add: in_set_enumerate_eq)
    with unspec have "\<not> unbound_at ?D ?F i (arg_names ! i)"
      unfolding not_specified_def list_ex_iff by blast
    then have "bound_value ?D ?F i (arg_names ! i) \<noteq> None"
      unfolding unbound_at_def bound_value_def by auto
    moreover have "args ! i = the (bound_value ?D ?F i (arg_names ! i))"
      unfolding args using that by (simp add: nth_enumerate_eq)
    ultimately show ?thesis by auto
  qed
  with len show ?thesis by blast
qed

theorem resolve_args_values_witness:
  "distinct [''a'', ''b'', ''c'']
   \<and> snd (resolve_args [[(Kw ''c'', 5)], [(Kw ''b'', 1::int), (Pos 0, 7)]] [''a'', ''b'', ''c''] 0 1)
       = Inr [7, 1, 5]
   \<and> length [7, 1, 5 :: int] = length [''a'', ''b'', ''c'']
   \<and> bound_value [(Kw ''b'', 1::int), (Pos 0, 7)] [(Kw ''c'', 5)] 2 ''c'' = Some 5"
proof -
  let ?h = "[[(Kw ''c'', 5)], [(Kw ''b'', 1::int), (Pos 0, 7)]]"
  have d: "distinct [''a'', ''b'', ''c'']" by simp
  have r1: "(1::nat) < length ?h" and r0: "(0::nat) < length ?h" by simp_all
  have run: "snd (resolve_args ?h [''a'', ''b'', ''c''] 0 1) = Inr [7, 1, 5]" by code_simp
  from resolve_args_values [OF d r1 r0 run]
  have "\<forall>i < 3. bound_value (?h ! 1) (?h ! 0) i ([''a'', ''b'', ''c''] ! i) = Some ([7, 1, 5] ! i)"
    by simp
  then have "bound_value (?h ! 1) (?h ! 0) 2 ([''a'', ''b'', ''c''] ! 2) = Some ([7, 1, 5] ! 2)"
    by (rule allE [where x = 2]) simp
  then have "bound_value [(Kw ''b'', 1::int), (Pos 0, 7)] [(Kw ''c'', 5)] 2 ''c'' = Some 5"
    by simp
  with d run show ?thesis by simp
qed

text \<open>
  Claim C3 as stated, without the condition on \<^verbatim>\<open>arg_names\<close>, fails:
  \<^verbatim>\<open>resolve_args(['a', 'a'], {'a': 5}, {'a': 1})\<close> returns \<open>[1, 5]\<close>, while the keyword
  key \<^verbatim>\<open>'a'\<close> is present in \<^verbatim>\<open>arg_dict\<close> and the claim gives \<^verbatim>\<open>arg_dict['a'] = 1\<close> for
  position 1.
\<close>

theorem resolve_args_values_counterexample:
  "snd (resolve_args [[(Kw ''a'', 5)], [(Kw ''a'', 1::int)]] [''a'', ''a''] 0 1) = Inr [1, 5]
   \<and> bound_value [(Kw ''a'', 1::int)] [(Kw ''a'', 5)] 1 ([''a'', ''a''] ! 1) = Some 1"
  by code_simp

lemma resolve_args_frame:
  assumes "resolve_args h arg_names default_dict arg_dict = (h', res)"
  shows "take (length h) h' = h"
proof -
  obtain h2 r where loop:
    "resolve_loop (h @ [h ! arg_dict]) default_dict (length h) (enumerate 0 arg_names) [] = (h2, r)"
    by (cases "resolve_loop (h @ [h ! arg_dict]) default_dict (length h) (enumerate 0 arg_names) []")
  from resolve_loop_frame [OF loop]
  have len: "length h2 = Suc (length h)"
    and same: "\<And>r. r \<noteq> length h \<Longrightarrow> h2 ! r = (h @ [h ! arg_dict]) ! r" by simp_all
  have h': "h' = h2"
    using assms loop
    by (auto simp: resolve_args_def dict_copy_def split: sum.splits if_splits)
  show ?thesis
  proof (rule nth_equalityI)
    show "length (take (length h) h') = length h" using len h' by simp
  next
    fix i assume "i < length (take (length h) h')"
    then have "i < length h" by simp
    then show "take (length h) h' ! i = h ! i"
      using same [of i] h' by (simp add: nth_append)
  qed
qed

text \<open>
  Claim C10. \<^verbatim>\<open>resolve_args\<close> never mutates its inputs: whether it returns or raises,
  the dictionaries that \<^verbatim>\<open>arg_dict\<close> and \<^verbatim>\<open>default_dict\<close> refer to are the same
  afterwards, and so is every other object that existed before the call. The entries
  are popped from a copy that the call allocates.
\<close>

theorem resolve_args_preserves_inputs:
  assumes "arg_dict < length h" and "default_dict < length h"
  shows "fst (resolve_args h arg_names default_dict arg_dict) ! arg_dict = h ! arg_dict
       \<and> fst (resolve_args h arg_names default_dict arg_dict) ! default_dict = h ! default_dict
       \<and> take (length h) (fst (resolve_args h arg_names default_dict arg_dict)) = h"
proof -
  obtain h' res where r: "resolve_args h arg_names default_dict arg_dict = (h', res)"
    by (cases "resolve_args h arg_names default_dict arg_dict")
  from resolve_args_frame [OF r] have t: "take (length h) h' = h" .
  have "h' ! r = h ! r" if "r < length h" for r
    using that t by (metis nth_take)
  with assms t r show ?thesis by simp
qed

theorem resolve_args_preserves_inputs_witness:
  "(1::nat) < length [[(Kw ''c'', 5)], [(Kw ''b'', 1::int), (Pos 0, 7)]]
   \<and> fst (resolve_args [[(Kw ''c'', 5)], [(Kw ''b'', 1::int), (Pos 0, 7)]] [''a'', ''b'', ''c''] 0 1) ! 1
       = [(Kw ''b'', 1::int), (Pos 0, 7)]
   \<and> fst (resolve_args [[(Kw ''c'', 5)], [(Kw ''b'', 1::int), (Pos 0, 7)]] [''a'', ''b'', ''c''] 0 1) ! 0
       = [(Kw ''c'', 5)]"
proof -
  let ?h = "[[(Kw ''c'', 5)], [(Kw ''b'', 1::int), (Pos 0, 7)]]"
  have r1: "(1::nat) < length ?h" and r0: "(0::nat) < length ?h" by simp_all
  from resolve_args_preserves_inputs [OF r1 r0, of "[''a'', ''b'', ''c'']"] r1
  show ?thesis by simp
qed

subsection \<open>Code generation always succeeds on names\<close>

lemma make_identifier_fresh:
  "\<exists>ident. make_identifier legal sanitize m name = Some ident \<and> ident \<notin> snd ` set m"
proof (cases "legal name \<and> name \<notin> snd ` set m")
  case True
  then show ?thesis by (simp add: make_identifier_def)
next
  case False
  have "finite (\<Union>(set [snd ` set m]))" by simp
  from get_unique_name_fresh [OF this, of "sanitize name"] False
  show ?thesis by (auto simp: make_identifier_def)
qed

lemma name_to_identifier_new:
  assumes "map_of m name = None"
  shows "\<exists>ident. name_to_identifier legal sanitize m name = Some (m @ [(name, ident)], ident)
           \<and> ident \<notin> snd ` set m"
  using make_identifier_fresh [of legal sanitize m name] assms
  by (auto simp: name_to_identifier_def)

lemma name_to_identifier_known:
  assumes "map_of m name = Some ident"
  shows "name_to_identifier legal sanitize m name = Some (m, ident)"
  using assms by (simp add: name_to_identifier_def)

lemma name_to_identifier_total:
  "\<exists>m' ident. name_to_identifier legal sanitize m name = Some (m', ident)"
proof (cases "map_of m name")
  case None
  from name_to_identifier_new [OF this] show ?thesis by blast
next
  case (Some ident)
  from name_to_identifier_known [OF this] show ?thesis by blast
qed

lemma register_names_total: "\<exists>m'. register_names legal sanitize m names = Some m'"
proof (induction names arbitrary: m)
  case Nil
  show ?case by simp
next
  case (Cons name names)
  obtain m1 ident where "name_to_identifier legal sanitize m name = Some (m1, ident)"
    using name_to_identifier_total by blast
  with Cons.IH [of m1] show ?case by simp
qed

lemma lower_var_total: "\<exists>ns' v. lower_var legal sanitize ns name = Some (ns', v)"
  using name_to_identifier_total [of legal sanitize "persistent_names ns" name]
    name_to_identifier_total [of legal sanitize "local_names ns" name]
  by (auto simp: lower_var_def)

lemma lower_expr_total: "\<exists>ns' e'. lower_expr legal sanitize ns e = Some (ns', e')"
proof (induction e arbitrary: ns)
  case (Const c)
  show ?case by simp
next
  case (Var x)
  from lower_var_total [of legal sanitize ns x] show ?case by auto
next
  case (Add a b)
  from Add.IH(1) [of ns] obtain ns1 a' where a: "lower_expr legal sanitize ns a = Some (ns1, a')"
    by blast
  from Add.IH(2) [of ns1] obtain ns2 b' where "lower_expr legal sanitize ns1 b = Some (ns2, b')"
    by blast
  with a show ?case by simp
qed


subsection \<open>Programs of two states\<close>

lemma generate_two_states:
  assumes "states p = [(n0, \<lparr>root_ids = r0, next_state = x0\<rparr>), (n1, \<lparr>root_ids = r1, next_state = x1\<rparr>)]"
    and "register_names legal sanitize [] [''<t>'', ''<dt>''] = Some m"
    and "schedule p r0 = Some is0"
    and "lower_instrs (length (instructions p)) legal sanitize p
           \<lparr>persistent_names = m, local_names = []\<rparr> is0 = Some (ns0, a0)"
    and "schedule p r1 = Some is1"
    and "lower_instrs (length (instructions p)) legal sanitize p
           \<lparr>persistent_names = persistent_names ns0, local_names = []\<rparr> is1 = Some (ns1, a1)"
  shows "generate legal sanitize p =
      Some \<lparr>code_states = [(n0, \<lparr>actions = a0, successor = x0\<rparr>),
                           (n1, \<lparr>actions = a1, successor = x1\<rparr>)],
            code_initial_state = initial_state p,
            code_persistent_names = persistent_names ns1\<rparr>"
  using assms by (simp add: generate_def)

lemma build_stepper_two_states:
  assumes "build_stepper legal sanitize init instrs step = Some code"
  shows "\<exists>m is0 ns0 a0 is1 ns1 a1.
      schedule (two_state_program init instrs step) init = Some is0
    \<and> lower_instrs (length instrs) legal sanitize (two_state_program init instrs step)
          \<lparr>persistent_names = m, local_names = []\<rparr> is0 = Some (ns0, a0)
    \<and> schedule (two_state_program init instrs step) step = Some is1
    \<and> lower_instrs (length instrs) legal sanitize (two_state_program init instrs step)
          \<lparr>persistent_names = persistent_names ns0, local_names = []\<rparr> is1 = Some (ns1, a1)
    \<and> code = \<lparr>code_states = [(''initialization'', \<lparr>actions = a0, successor = ''primary''\<rparr>),
                               (''primary'', \<lparr>actions = a1, successor = ''primary''\<rparr>)],
               code_initial_state = ''initialization'',
               code_persistent_names = persistent_names ns1\<rparr>"
proof -
  let ?p = "two_state_program init instrs step"
  from assms have gen: "generate legal sanitize ?p = Some code"
    by (auto simp: build_stepper_def create_with_init_and_step_def split: option.splits sum.splits)
  have p: "states ?p = [(''initialization'', \<lparr>root_ids = init, next_state = ''primary''\<rparr>),
                (''primary'', \<lparr>root_ids = step, next_state = ''primary''\<rparr>)]"
      "instructions ?p = instrs" "initial_state ?p = ''initialization''"
    by (simp_all add: two_state_program_def)
  from gen show ?thesis
    by (auto simp: generate_def p split: option.splits prod.splits) blast
qed

subsection \<open>Scheduling: the root of a state comes last\<close>

lemma find_instruction_unique:
  assumes "distinct (map instr_id (instructions p))" and "ins \<in> set (instructions p)"
  shows "find_instruction p (instr_id ins) = Some ins"
proof -
  have "find (\<lambda>x. instr_id x = instr_id ins) xs = Some ins"
    if "distinct (map instr_id xs)" "ins \<in> set xs" for xs
    using that by (induction xs) (auto simp: image_iff)
  with assms show ?thesis by (simp add: find_instruction_def)
qed

lemma same_id_same_instruction:
  assumes "distinct (map instr_id xs)" and "x \<in> set xs" and "y \<in> set xs"
    and "instr_id x = instr_id y"
  shows "x = y"
  using assms by (meson distinct_map inj_onD)

lemma reachable_subset:
  assumes "set ids \<subseteq> R"
    and "\<And>x ins y. x \<in> R \<Longrightarrow> find_instruction p x = Some ins \<Longrightarrow> y \<in> set (depends_on ins) \<Longrightarrow> y \<in> R"
  shows "set (reachable n p ids) \<subseteq> R"
  using assms(1)
proof (induction n arbitrary: ids)
  case 0
  then show ?case by simp
next
  case (Suc n)
  have "set (remdups (ids @ concat (map (\<lambda>i. case find_instruction p i of
          None \<Rightarrow> [] | Some ins \<Rightarrow> depends_on ins) ids))) \<subseteq> R"
  proof -
    have dep: "y \<in> R"
      if "x \<in> set ids" "find_instruction p x = Some u" "y \<in> set (depends_on u)" for x u y
      using assms(2) [of x u y] that Suc.prems by auto
    show ?thesis
    proof
      fix y
      assume "y \<in> set (remdups (ids @ concat (map (\<lambda>i. case find_instruction p i of
          None \<Rightarrow> [] | Some ins \<Rightarrow> depends_on ins) ids)))"
      then consider "y \<in> set ids"
        | x where "x \<in> set ids"
            "y \<in> set (case find_instruction p x of None \<Rightarrow> [] | Some ins \<Rightarrow> depends_on ins)"
        by auto
      then show "y \<in> R"
      proof cases
        case 1
        with Suc.prems show ?thesis by auto
      next
        case 2
        then obtain u where "find_instruction p x = Some u" "y \<in> set (depends_on u)"
          by (cases "find_instruction p x") auto
        with 2(1) dep show ?thesis by blast
      qed
    qed
  qed
  from Suc.IH [OF this] show ?case by simp
qed

lemma reachable_contains: "set ids \<subseteq> set (reachable n p ids)"
proof (induction n arbitrary: ids)
  case 0
  show ?case by simp
next
  case (Suc n)
  let ?next = "remdups (ids @ concat (map (\<lambda>i. case find_instruction p i of
          None \<Rightarrow> [] | Some ins \<Rightarrow> depends_on ins) ids))"
  have "set ids \<subseteq> set ?next" by auto
  also have "\<dots> \<subseteq> set (reachable n p ?next)" by (rule Suc.IH)
  also have "reachable n p ?next = reachable (Suc n) p ids" by simp
  finally show ?case .
qed

lemma topological_order_distinct:
  assumes "distinct pending"
  shows "distinct (topological_order n pending done)
       \<and> set (topological_order n pending done) \<subseteq> set pending"
  using assms
proof (induction n arbitrary: pending "done")
  case 0
  show ?case by simp
next
  case (Suc n)
  show ?case
  proof (cases "find (\<lambda>ins. list_all (\<lambda>d. d \<in> set done) (depends_on ins)) pending")
    case None
    then show ?thesis by simp
  next
    case (Some x)
    let ?rest = "topological_order n (remove1 x pending) (instr_id x # done)"
    have order: "topological_order (Suc n) pending done = x # ?rest" using Some by simp
    from Some have x: "x \<in> set pending" by (auto simp: find_Some_iff)
    have d: "distinct (remove1 x pending)" using Suc.prems by simp
    from Suc.IH [OF d, of "instr_id x # done"]
    have "distinct ?rest" and "set ?rest \<subseteq> set (remove1 x pending)" by simp_all
    moreover have "set (remove1 x pending) = set pending - {x}"
      using Suc.prems by simp
    ultimately show ?thesis unfolding order using x by auto
  qed
qed

lemma topological_order_deps_first:
  assumes "k < length (topological_order n pending done)"
  shows "set (depends_on (topological_order n pending done ! k))
       \<subseteq> set done \<union> instr_id ` set (take k (topological_order n pending done))"
  using assms
proof (induction n arbitrary: pending "done" k)
  case 0
  then show ?case by simp
next
  case (Suc n)
  show ?case
  proof (cases "find (\<lambda>ins. list_all (\<lambda>d. d \<in> set done) (depends_on ins)) pending")
    case None
    with Suc.prems show ?thesis by simp
  next
    case (Some x)
    let ?rest = "topological_order n (remove1 x pending) (instr_id x # done)"
    have order: "topological_order (Suc n) pending done = x # ?rest" using Some by simp
    from Some have ready: "set (depends_on x) \<subseteq> set done"
      by (auto simp: find_Some_iff list_all_iff)
    show ?thesis
    proof (cases k)
      case 0
      with ready order show ?thesis by simp
    next
      case (Suc j)
      with Suc.prems order have "j < length ?rest" by simp
      from Suc.IH [OF this]
      have "set (depends_on (?rest ! j)) \<subseteq> set (instr_id x # done) \<union> instr_id ` set (take j ?rest)" .
      then show ?thesis unfolding order Suc by auto
    qed
  qed
qed

lemma schedule_root_last:
  assumes ids: "distinct (map instr_id (instructions p))"
    and ins: "ins \<in> set (instructions p)"
    and sched: "schedule p [instr_id ins] = Some order"
  shows "\<exists>pre. order = pre @ [ins]
           \<and> set pre \<subseteq> set (instructions p) \<and> ins \<notin> set pre
           \<and> (depends_on ins = [] \<longrightarrow> pre = [])"
proof -
  let ?ids = "reachable (length (instructions p)) p [instr_id ins]"
  let ?unit = "filter (\<lambda>x. instr_id x \<in> set ?ids) (instructions p)"
  from sched have order: "order = topological_order (length ?unit) ?unit []"
    and len: "length order = length ?unit"
    by (auto simp: schedule_def Let_def split: if_splits)
  have d_instrs: "distinct (instructions p)" using ids by (simp add: distinct_map)
  then have d_unit: "distinct ?unit" by simp
  from topological_order_distinct [OF d_unit, of "length ?unit" "[]"]
  have d_order: "distinct order" and sub: "set order \<subseteq> set ?unit"
    unfolding order by simp_all
  have "card (set order) = length order" using d_order by (rule distinct_card)
  moreover have "card (set ?unit) = length ?unit" using d_unit by (rule distinct_card)
  ultimately have "card (set order) = card (set ?unit)" using len by simp
  with sub have same: "set order = set ?unit"
    by (simp add: card_subset_eq)
  have in_p: "set order \<subseteq> set (instructions p)" using same by auto
  have "instr_id ins \<in> set ?ids" using reachable_contains [of "[instr_id ins]"] by auto
  with ins same have "ins \<in> set order" by simp
  then obtain pre post where split: "order = pre @ ins # post"
    by (meson split_list)
  let ?B = "instr_id ` set (pre @ [ins])"
  have closed: "y \<in> ?B"
    if "x \<in> ?B" "find_instruction p x = Some u" "y \<in> set (depends_on u)" for x u y
  proof -
    from that(1) obtain w where w: "w \<in> set (pre @ [ins])" "x = instr_id w" by auto
    then have "w \<in> set (instructions p)" using in_p split by auto
    from find_instruction_unique [OF ids this] that(2) w(2) have "u = w" by simp
    from w(1) obtain k where k: "k < length (pre @ [ins])" "(pre @ [ins]) ! k = w"
      by (meson in_set_conv_nth)
    then have k_lt: "k < length order" and at: "order ! k = w"
      unfolding split by (auto simp: nth_append)
    from topological_order_deps_first [of k "length ?unit" ?unit "[]"] k_lt at
    have "set (depends_on w) \<subseteq> instr_id ` set (take k order)"
      unfolding order by simp
    moreover have "set (take k order) \<subseteq> set (pre @ [ins])"
      using k(1) unfolding split by (auto dest: in_set_takeD simp: take_append)
    ultimately show ?thesis using that(3) \<open>u = w\<close> by auto
  qed
  have "set ?ids \<subseteq> ?B"
    by (rule reachable_subset) (use closed in auto)
  have post: "post = []"
  proof (rule ccontr)
    assume "post \<noteq> []"
    then obtain y where y: "y \<in> set post" by (cases post) auto
    then have "y \<in> set ?unit" using same split by auto
    then have "instr_id y \<in> set ?ids" by simp
    with \<open>set ?ids \<subseteq> ?B\<close> obtain w where w: "w \<in> set (pre @ [ins])" "instr_id y = instr_id w"
      by auto
    have "y \<in> set (instructions p)" "w \<in> set (instructions p)"
      using in_p split y w(1) by auto
    from same_id_same_instruction [OF ids this w(2)] have "y = w" .
    with w(1) y d_order show False unfolding split by auto
  qed
  have no_deps: "pre = []" if "depends_on ins = []"
  proof (rule ccontr)
    assume "pre \<noteq> []"
    then obtain y where y: "y \<in> set pre" by (cases pre) auto
    have "set ?ids \<subseteq> {instr_id ins}"
    proof (rule reachable_subset)
      show "set [instr_id ins] \<subseteq> {instr_id ins}" by simp
    next
      fix x u z
      assume "x \<in> {instr_id ins}" "find_instruction p x = Some u" "z \<in> set (depends_on u)"
      with find_instruction_unique [OF ids ins] that show "z \<in> {instr_id ins}" by simp
    qed
    moreover have "y \<in> set ?unit" using same split y by auto
    ultimately have "instr_id y = instr_id ins" by auto
    moreover have "y \<in> set (instructions p)" using in_p split y by auto
    ultimately have "y = ins" using same_id_same_instruction [OF ids _ ins] by blast
    with y d_order show False unfolding split by auto
  qed
  from d_order have "ins \<notin> set pre" unfolding split by auto
  with split post in_p no_deps show ?thesis by auto
qed

lemma schedule_Nil: "schedule p [] = Some []"
proof -
  have "reachable n p [] = []" for n by (induction n) simp_all
  then show ?thesis by (simp add: schedule_def)
qed

subsection \<open>Lowering and executing lists of instructions\<close>

lemma lower_instrs_Cons:
  "lower_instrs fuel legal sanitize p ns (ins # rest) =
     (case lower_instrs fuel legal sanitize p ns [ins] of
        None \<Rightarrow> None
      | Some (ns', as) \<Rightarrow>
          (case lower_instrs fuel legal sanitize p ns' rest of
             None \<Rightarrow> None
           | Some (ns'', bs) \<Rightarrow> Some (ns'', as @ bs)))"
  by (simp split: option.splits prod.splits)

lemma lower_instrs_append:
  "lower_instrs fuel legal sanitize p ns (xs @ ys) =
     (case lower_instrs fuel legal sanitize p ns xs of
        None \<Rightarrow> None
      | Some (ns', as) \<Rightarrow>
          (case lower_instrs fuel legal sanitize p ns' ys of
             None \<Rightarrow> None
           | Some (ns'', bs) \<Rightarrow> Some (ns'', as @ bs)))"
proof (induction xs arbitrary: ns)
  case Nil
  show ?case by (simp split: option.splits)
next
  case (Cons x xs)
  show ?case
    unfolding append_Cons lower_instrs_Cons [of _ _ _ _ _ x "xs @ ys"]
      lower_instrs_Cons [of _ _ _ _ _ x xs] Cons.IH
    by (simp split: option.splits prod.splits)
qed

lemma lower_instrs_single:
  assumes "lower_instrs fuel legal sanitize p ns [ins] = Some (ns', as)"
  shows "variant ins = AbortStep \<Longrightarrow> as = [FailStep]"
    and "variant ins = RaiseError k m \<Longrightarrow> as = [Raise k m]"
    and "variant ins = Emit tm tid e cid \<Longrightarrow>
           \<exists>e'. as = [Yield tm tid e' cid] \<and> lower_expr legal sanitize ns e = Some (ns', e')"
  using assms by (auto split: option.splits)

lemma exec_actions_append:
  "exec_actions (xs @ ys) s =
     (case exec_actions xs s of
        (evs, Done s') \<Rightarrow> (case exec_actions ys s' of (evs', r) \<Rightarrow> (evs @ evs', r))
      | (evs, r) \<Rightarrow> (evs, r))"
  by (induction xs s rule: exec_actions.induct)
     (auto split: option.splits prod.splits outcome.splits)

lemma exec_actions_events:
  "exec_actions xs s = (evs, r) \<Longrightarrow> StateCompleted name \<notin> set evs"
  by (induction xs s arbitrary: evs r rule: exec_actions.induct)
     (auto split: option.splits prod.splits outcome.splits if_splits)

subsection \<open>Stepping\<close>

lemma run_single_step_primary:
  assumes "code_states code = [(''initialization'', sc0), (''primary'', sc1)]"
    and "current_state st = ''primary''"
  shows "run_single_step code st =
     (case exec_actions (actions sc1) (persistent st, []) of
        (evs, Done (ps, ls)) \<Rightarrow>
          (evs @ [StateCompleted ''primary''], Completed,
           \<lparr>current_state = successor sc1, persistent = ps\<rparr>)
      | (evs, Signalled f (ps, ls)) \<Rightarrow> (evs, Failed f, st\<lparr>persistent := ps\<rparr>)
      | (evs, Stuck) \<Rightarrow> (evs, Undefined, st))"
  using assms by (simp add: run_single_step_def)

lemma run_single_step_initialization:
  assumes "code_states code = [(''initialization'', sc0), (''primary'', sc1)]"
    and "current_state st = ''initialization''"
  shows "run_single_step code st =
     (case exec_actions (actions sc0) (persistent st, []) of
        (evs, Done (ps, ls)) \<Rightarrow>
          (evs @ [StateCompleted ''initialization''], Completed,
           \<lparr>current_state = successor sc0, persistent = ps\<rparr>)
      | (evs, Signalled f (ps, ls)) \<Rightarrow> (evs, Failed f, st\<lparr>persistent := ps\<rparr>)
      | (evs, Stuck) \<Rightarrow> (evs, Undefined, st))"
  using assms by (simp add: run_single_step_def)


lemma run_two_steps:
  "run 2 code st =
     (case run_single_step code st of
        (evs, Completed, st') \<Rightarrow> map Event evs @ run (Suc 0) code st'
      | (evs, Failed StepFailed, st') \<Rightarrow> map Event evs @ Signal StepFailed # run (Suc 0) code st'
      | (evs, Failed (Raised k m), st') \<Rightarrow> map Event evs @ [Signal (Raised k m)]
      | (evs, Undefined, st') \<Rightarrow> map Event evs)"
  by (simp add: numeral_2_eq_2)

lemma run_raised_is_last:
  assumes "Signal (Raised k m) \<in> set (run n code st)"
  shows "\<exists>xs. run n code st = xs @ [Signal (Raised k m)]
           \<and> (\<forall>k' m'. Signal (Raised k' m') \<notin> set xs)"
  using assms
proof (induction n arbitrary: st)
  case 0
  then show ?case by simp
next
  case (Suc n)
  obtain evs e st' where step: "run_single_step code st = (evs, e, st')"
    by (cases "run_single_step code st") auto
  have no_sig: "Signal f \<notin> set (map Event evs)" for f by auto
  show ?case
  proof (cases e)
    case Completed
    with step have eq: "run (Suc n) code st = map Event evs @ run n code st'" by simp
    from Suc.prems [unfolded eq] no_sig
    have "Signal (Raised k m) \<in> set (run n code st')" by auto
    from Suc.IH [OF this] obtain xs where "run n code st' = xs @ [Signal (Raised k m)]"
      and "\<forall>k' m'. Signal (Raised k' m') \<notin> set xs" by blast
    with no_sig show ?thesis
      unfolding eq by (intro exI [of _ "map Event evs @ xs"]) auto
  next
    case (Failed f)
    show ?thesis
    proof (cases f)
      case StepFailed
      with Failed step
      have eq: "run (Suc n) code st = map Event evs @ Signal StepFailed # run n code st'" by simp
      from Suc.prems [unfolded eq] no_sig
    have "Signal (Raised k m) \<in> set (run n code st')" by auto
      from Suc.IH [OF this] obtain xs where "run n code st' = xs @ [Signal (Raised k m)]"
        and "\<forall>k' m'. Signal (Raised k' m') \<notin> set xs" by blast
      with no_sig show ?thesis
        unfolding eq by (intro exI [of _ "map Event evs @ Signal StepFailed # xs"]) auto
    next
      case (Raised k' m')
      with Failed step
      have eq: "run (Suc n) code st = map Event evs @ [Signal (Raised k' m')]" by simp
      from Suc.prems [unfolded eq] no_sig have "k' = k" "m' = m" by auto
      with no_sig show ?thesis
        unfolding eq by (intro exI [of _ "map Event evs"]) auto
    qed
  next
    case Undefined
    with step have eq: "run (Suc n) code st = map Event evs" by simp
    from Suc.prems [unfolded eq] no_sig show ?thesis by auto
  qed
qed

lemma rooted_primary_code:
  assumes ids: "distinct (map instr_id instrs)"
    and ins: "ins \<in> set instrs"
    and build: "build_stepper legal sanitize init instrs [instr_id ins] = Some code"
  shows "\<exists>a0 acts ns ns' a.
      code_states code = [(''initialization'', \<lparr>actions = a0, successor = ''primary''\<rparr>),
                          (''primary'', \<lparr>actions = acts @ a, successor = ''primary''\<rparr>)]
    \<and> code_initial_state code = ''initialization''
    \<and> lower_instrs (length instrs) legal sanitize
          (two_state_program init instrs [instr_id ins]) ns [ins] = Some (ns', a)
    \<and> (depends_on ins = [] \<longrightarrow> acts = [])
    \<and> (init = [] \<longrightarrow> a0 = [])"
proof -
  let ?p = "two_state_program init instrs [instr_id ins]"
  have p: "instructions ?p = instrs" by (simp add: two_state_program_def)
  from build_stepper_two_states [OF build] obtain m is0 ns0 a0 is1 ns1 a1 where
    s0: "schedule ?p init = Some is0"
    and l0: "lower_instrs (length instrs) legal sanitize ?p
          \<lparr>persistent_names = m, local_names = []\<rparr> is0 = Some (ns0, a0)"
    and s1: "schedule ?p [instr_id ins] = Some is1"
    and l1: "lower_instrs (length instrs) legal sanitize ?p
          \<lparr>persistent_names = persistent_names ns0, local_names = []\<rparr> is1 = Some (ns1, a1)"
    and code: "code = \<lparr>code_states = [(''initialization'', \<lparr>actions = a0, successor = ''primary''\<rparr>),
                               (''primary'', \<lparr>actions = a1, successor = ''primary''\<rparr>)],
               code_initial_state = ''initialization'',
               code_persistent_names = persistent_names ns1\<rparr>"
    by blast
  from schedule_root_last [of ?p ins is1] ids ins s1 obtain pre where
    is1: "is1 = pre @ [ins]" and nodeps: "depends_on ins = [] \<longrightarrow> pre = []"
    unfolding p by blast
  from l1 [unfolded is1 lower_instrs_append] obtain ns2 acts a where
    pre: "lower_instrs (length instrs) legal sanitize ?p
          \<lparr>persistent_names = persistent_names ns0, local_names = []\<rparr> pre = Some (ns2, acts)"
    and last: "lower_instrs (length instrs) legal sanitize ?p ns2 [ins] = Some (ns1, a)"
    and a1: "a1 = acts @ a"
    by (auto split: option.splits prod.splits)
  have "acts = []" if "depends_on ins = []"
    using nodeps that pre by simp
  moreover have "a0 = []" if "init = []"
    using s0 l0 that by (simp add: schedule_Nil)
  ultimately show ?thesis
    using code a1 last by auto
qed

lemma lower_single_total:
  assumes "\<And>c t e. variant ins \<noteq> ConditionalBranch c t e"
  shows "\<exists>ns' as. lower_instrs fuel legal sanitize p ns [ins] = Some (ns', as)"
proof (cases "variant ins")
  case (Assign x e)
  obtain ns1 e' where "lower_expr legal sanitize ns e = Some (ns1, e')"
    using lower_expr_total by blast
  moreover obtain ns2 v where "lower_var legal sanitize ns1 x = Some (ns2, v)"
    using lower_var_total by blast
  ultimately show ?thesis using Assign by simp
next
  case (ConditionalBranch c t e)
  with assms have False by blast
  then show ?thesis ..
next
  case (Emit tm tid e cid)
  obtain ns1 e' where "lower_expr legal sanitize ns e = Some (ns1, e')"
    using lower_expr_total by blast
  with Emit show ?thesis by simp
next
  case AbortStep
  then show ?thesis by simp
next
  case (RaiseError k m)
  then show ?thesis by simp
qed

lemma schedule_single:
  assumes "depends_on ins = []"
  shows "schedule (two_state_program [] [ins] [instr_id ins]) [instr_id ins] = Some [ins]"
  using assms by (simp add: schedule_def find_instruction_def two_state_program_def)

lemma build_single_exists:
  assumes deps: "depends_on ins = []"
    and nb: "\<And>c t e. variant ins \<noteq> ConditionalBranch c t e"
  shows "\<exists>code. build_stepper legal sanitize [] [ins] [instr_id ins] = Some code"
proof -
  let ?p = "two_state_program [] [ins] [instr_id ins]"
  have "referenced_ids ins = []"
  proof (cases "variant ins")
    case (ConditionalBranch c t e)
    with nb have False by blast
    then show ?thesis ..
  qed (simp_all add: referenced_ids_def deps)
  then have create: "create_with_init_and_step [] [ins] [instr_id ins] = Inr ?p"
    by (simp add: create_with_init_and_step_def)
  obtain m where m: "register_names legal sanitize [] [''<t>'', ''<dt>''] = Some m"
    using register_names_total by blast
  have st: "states ?p = [(''initialization'', \<lparr>root_ids = [], next_state = ''primary''\<rparr>),
                (''primary'', \<lparr>root_ids = [instr_id ins], next_state = ''primary''\<rparr>)]"
    by (simp add: two_state_program_def)
  have l0: "lower_instrs (length (instructions ?p)) legal sanitize ?p
      \<lparr>persistent_names = m, local_names = []\<rparr> [] = Some (\<lparr>persistent_names = m, local_names = []\<rparr>, [])"
    by simp
  obtain ns1 a1 where l1: "lower_instrs (length (instructions ?p)) legal sanitize ?p
      \<lparr>persistent_names = persistent_names \<lparr>persistent_names = m, local_names = []\<rparr>, local_names = []\<rparr>
      [ins] = Some (ns1, a1)"
    using lower_single_total [OF nb] by blast
  from generate_two_states [OF st m schedule_Nil l0 schedule_single [OF deps] l1] create
  show ?thesis by (simp add: build_stepper_def)
qed

subsection \<open>The scenarios\<close>





lemma raise_error_program_behaviour:
  assumes "distinct (map instr_id instrs)"
    and "ins \<in> set instrs" and "variant ins = RaiseError K M"
    and "build_stepper legal sanitize initialization_dep_on instrs [instr_id ins] = Some code"
  shows "\<exists>acts.
      map_of (code_states code) ''primary''
        = Some \<lparr>actions = acts @ [Raise K M], successor = ''primary''\<rparr>
    \<and> (depends_on ins = [] \<longrightarrow> acts = [])
    \<and> (\<forall>st. current_state st = ''primary'' \<longrightarrow>
         (\<exists>evs e st'. run_single_step code st = (evs, e, st')
            \<and> (\<forall>name. StateCompleted name \<notin> set evs)
            \<and> e \<noteq> Completed
            \<and> current_state st' = ''primary''
            \<and> (case exec_actions acts (persistent st, []) of
                 (evs0, Done s) \<Rightarrow>
                   evs = evs0 \<and> e = Failed (Raised K M)
                   \<and> (\<forall>n. run (Suc n) code st = map Event evs0 @ [Signal (Raised K M)])
               | (evs0, Signalled f s) \<Rightarrow> evs = evs0 \<and> e = Failed f
               | (evs0, Stuck) \<Rightarrow> evs = evs0 \<and> e = Undefined)))
    \<and> (depends_on ins = [] \<longrightarrow>
         (\<forall>st. current_state st = ''primary'' \<longrightarrow>
            run_single_step code st = ([], Failed (Raised K M), st)
            \<and> (\<forall>n. run (Suc n) code st = [Signal (Raised K M)])))
    \<and> (depends_on ins = [] \<and> initialization_dep_on = [] \<longrightarrow>
         (\<forall>t dt ctx n. run (Suc (Suc n)) code (set_up code t dt ctx)
            = [Event (StateCompleted ''initialization''), Signal (Raised K M)]))
    \<and> (\<forall>n st k m. Signal (Raised k m) \<in> set (run n code st) \<longrightarrow>
         (\<exists>xs. run n code st = xs @ [Signal (Raised k m)]
            \<and> (\<forall>k' m'. Signal (Raised k' m') \<notin> set xs)))"
proof -
  from rooted_primary_code [OF assms(1,2,4)] obtain a0 acts ns ns' a where
    cs0: "code_states code = [(''initialization'', \<lparr>actions = a0, successor = ''primary''\<rparr>),
                          (''primary'', \<lparr>actions = acts @ a, successor = ''primary''\<rparr>)]"
    and ci: "code_initial_state code = ''initialization''"
    and low: "lower_instrs (length instrs) legal sanitize
          (two_state_program initialization_dep_on instrs [instr_id ins]) ns [ins] = Some (ns', a)"
    and nodeps: "depends_on ins = [] \<longrightarrow> acts = []"
    and noinit: "initialization_dep_on = [] \<longrightarrow> a0 = []"
    by blast
  from lower_instrs_single(2) [OF low assms(3)] have a: "a = [Raise K M]" .
  note cs = cs0 [unfolded a]
  have prim: "map_of (code_states code) ''primary''
        = Some \<lparr>actions = acts @ [Raise K M], successor = ''primary''\<rparr>"
    by (simp add: cs)
  have step: "\<exists>evs e st'. run_single_step code st = (evs, e, st')
            \<and> (\<forall>name. StateCompleted name \<notin> set evs)
            \<and> e \<noteq> Completed
            \<and> current_state st' = ''primary''
            \<and> (case exec_actions acts (persistent st, []) of
                 (evs0, Done s) \<Rightarrow>
                   evs = evs0 \<and> e = Failed (Raised K M)
                   \<and> (\<forall>n. run (Suc n) code st = map Event evs0 @ [Signal (Raised K M)])
               | (evs0, Signalled f s) \<Rightarrow> evs = evs0 \<and> e = Failed f
               | (evs0, Stuck) \<Rightarrow> evs = evs0 \<and> e = Undefined)"
    if cur: "current_state st = ''primary''" for st
  proof -
    obtain evs0 r0 where ex: "exec_actions acts (persistent st, []) = (evs0, r0)"
      by (cases "exec_actions acts (persistent st, [])") auto
    from exec_actions_events [OF ex] have noc: "\<forall>name. StateCompleted name \<notin> set evs0" by blast
    show ?thesis
      using run_single_step_primary [OF cs cur] ex noc cur
      by (cases r0) (auto simp: exec_actions_append)
  qed
  have direct: "run_single_step code st = ([], Failed (Raised K M), st)
            \<and> (\<forall>n. run (Suc n) code st = [Signal (Raised K M)])"
    if "depends_on ins = []" "current_state st = ''primary''" for st
    using run_single_step_primary [OF cs that(2)] nodeps that(1) by simp
  have whole: "run (Suc (Suc n)) code (set_up code t dt ctx)
            = [Event (StateCompleted ''initialization''), Signal (Raised K M)]"
    if "depends_on ins = []" "initialization_dep_on = []" for t dt ctx n
  proof -
    let ?st1 = "\<lparr>current_state = ''primary'', persistent = persistent (set_up code t dt ctx)\<rparr>"
    have first: "run_single_step code (set_up code t dt ctx)
        = ([StateCompleted ''initialization''], Completed, ?st1)"
      using run_single_step_initialization [OF cs, of "set_up code t dt ctx"] noinit that(2)
      by (simp add: set_up_def ci)
    have "run (Suc n) code ?st1 = [Signal (Raised K M)]"
      using direct [OF that(1), of ?st1] by simp
    with first show ?thesis by simp
  qed
  have last: "\<exists>xs. run n code st = xs @ [Signal (Raised k m)]
            \<and> (\<forall>k' m'. Signal (Raised k' m') \<notin> set xs)"
    if "Signal (Raised k m) \<in> set (run n code st)" for n st k m
    using that by (rule run_raised_is_last)
  from prim nodeps step direct whole last show ?thesis by blast
qed

text \<open>
  Claim C7, amended. For a program (unique instruction ids, code generated) whose step
  root is a single \<open>RaiseError{kind=K, message=M}\<close>, with any initialization root set
  and any other instructions: the \<open>RaiseError\<close> is scheduled last, and executing the
  step in state \<open>primary\<close> surfaces the fatal signal \<open>Raised{K, M}\<close> whenever the
  instructions it depends on run to the end; the events of the step are the ones those
  instructions emit, there is no \<open>StateCompleted\<close>, and a run from there ends with the
  signal. If a dependency ends the step first, its signal surfaces instead (an
  \<open>AbortStep\<close> gives \<open>StepFailed\<close>). When the \<open>RaiseError\<close> has no dependencies the
  step yields exactly \<open>Raised{K, M}\<close> and no event. In every run, of any length and
  from any stepper, a \<open>Raised\<close> signal is the last item: nothing follows it. For the
  program that holds nothing but the \<open>RaiseError\<close> the code is generated, whatever the
  target.
\<close>

theorem raise_error_program:
  assumes "distinct (map instr_id instrs)"
    and "ins \<in> set instrs" and "variant ins = RaiseError K M"
  shows "(instrs = [ins] \<and> depends_on ins = [] \<and> initialization_dep_on = [] \<longrightarrow>
          (\<exists>code'. build_stepper legal sanitize initialization_dep_on instrs [instr_id ins] = Some code'))
       \<and> (\<forall>code. build_stepper legal sanitize initialization_dep_on instrs [instr_id ins] = Some code \<longrightarrow>
          (\<exists>acts.
      map_of (code_states code) ''primary''
        = Some \<lparr>actions = acts @ [Raise K M], successor = ''primary''\<rparr>
    \<and> (depends_on ins = [] \<longrightarrow> acts = [])
    \<and> (\<forall>st. current_state st = ''primary'' \<longrightarrow>
         (\<exists>evs e st'. run_single_step code st = (evs, e, st')
            \<and> (\<forall>name. StateCompleted name \<notin> set evs)
            \<and> e \<noteq> Completed
            \<and> current_state st' = ''primary''
            \<and> (case exec_actions acts (persistent st, []) of
                 (evs0, Done s) \<Rightarrow>
                   evs = evs0 \<and> e = Failed (Raised K M)
                   \<and> (\<forall>n. run (Suc n) code st = map Event evs0 @ [Signal (Raised K M)])
               | (evs0, Signalled f s) \<Rightarrow> evs = evs0 \<and> e = Failed f
               | (evs0, Stuck) \<Rightarrow> evs = evs0 \<and> e = Undefined)))
    \<and> (depends_on ins = [] \<longrightarrow>
         (\<forall>st. current_state st = ''primary'' \<longrightarrow>
            run_single_step code st = ([], Failed (Raised K M), st)
            \<and> (\<forall>n. run (Suc n) code st = [Signal (Raised K M)])))
    \<and> (depends_on ins = [] \<and> initialization_dep_on = [] \<longrightarrow>
         (\<forall>t dt ctx n. run (Suc (Suc n)) code (set_up code t dt ctx)
            = [Event (StateCompleted ''initialization''), Signal (Raised K M)]))
    \<and> (\<forall>n st k m. Signal (Raised k m) \<in> set (run n code st) \<longrightarrow>
         (\<exists>xs. run n code st = xs @ [Signal (Raised k m)]
            \<and> (\<forall>k' m'. Signal (Raised k' m') \<notin> set xs)))))"
proof (intro conjI impI allI)
  assume "instrs = [ins] \<and> depends_on ins = [] \<and> initialization_dep_on = []"
  then show "\<exists>code'. build_stepper legal sanitize initialization_dep_on instrs [instr_id ins] = Some code'"
    using build_single_exists [of ins legal sanitize] assms(3) by auto
next
  fix code
  assume "build_stepper legal sanitize initialization_dep_on instrs [instr_id ins] = Some code"
  from raise_error_program_behaviour [OF assms this]
  show "\<exists>acts.
      map_of (code_states code) ''primary''
        = Some \<lparr>actions = acts @ [Raise K M], successor = ''primary''\<rparr>
    \<and> (depends_on ins = [] \<longrightarrow> acts = [])
    \<and> (\<forall>st. current_state st = ''primary'' \<longrightarrow>
         (\<exists>evs e st'. run_single_step code st = (evs, e, st')
            \<and> (\<forall>name. StateCompleted name \<notin> set evs)
            \<and> e \<noteq> Completed
            \<and> current_state st' = ''primary''
            \<and> (case exec_actions acts (persistent st, []) of
                 (evs0, Done s) \<Rightarrow>
                   evs = evs0 \<and> e = Failed (Raised K M)
                   \<and> (\<forall>n. run (Suc n) code st = map Event evs0 @ [Signal (Raised K M)])
               | (evs0, Signalled f s) \<Rightarrow> evs = evs0 \<and> e = Failed f
               | (evs0, Stuck) \<Rightarrow> evs = evs0 \<and> e = Undefined)))
    \<and> (depends_on ins = [] \<longrightarrow>
         (\<forall>st. current_state st = ''primary'' \<longrightarrow>
            run_single_step code st = ([], Failed (Raised K M), st)
            \<and> (\<forall>n. run (Suc n) code st = [Signal (Raised K M)])))
    \<and> (depends_on ins = [] \<and> initialization_dep_on = [] \<longrightarrow>
         (\<forall>t dt ctx n. run (Suc (Suc n)) code (set_up code t dt ctx)
            = [Event (StateCompleted ''initialization''), Signal (Raised K M)]))
    \<and> (\<forall>n st k m. Signal (Raised k m) \<in> set (run n code st) \<longrightarrow>
         (\<exists>xs. run n code st = xs @ [Signal (Raised k m)]
            \<and> (\<forall>k' m'. Signal (Raised k' m') \<notin> set xs)))" .
qed

text \<open>
  The theorem at a program whose \<open>RaiseError\<close> depends on an \<open>Emit\<close>.
\<close>

theorem raise_error_program_witness:
  "distinct (map instr_id
       [\<lparr>instr_id = ''out'', depends_on = [], variant = Emit 0 ''final'' (Const 7) ''<state>''\<rparr>,
        \<lparr>instr_id = ''raise'', depends_on = [''out''],
          variant = RaiseError ''TimeStepUnderflow'' ''underflow''\<rparr>])
   \<and> build_stepper legal_identifier sanitize_name []
       [\<lparr>instr_id = ''out'', depends_on = [], variant = Emit 0 ''final'' (Const 7) ''<state>''\<rparr>,
        \<lparr>instr_id = ''raise'', depends_on = [''out''],
          variant = RaiseError ''TimeStepUnderflow'' ''underflow''\<rparr>] [''raise'']
     = Some \<lparr>code_states =
               [(''initialization'', \<lparr>actions = [], successor = ''primary''\<rparr>),
                (''primary'',
                 \<lparr>actions = [Yield 0 ''final'' (Const 7) ''<state>'',
                              Raise ''TimeStepUnderflow'' ''underflow''],
                  successor = ''primary''\<rparr>)],
             code_initial_state = ''initialization'',
             code_persistent_names = [(''<t>'', ''t''), (''<dt>'', ''dt'')]\<rparr>
   \<and> (\<exists>evs e st'.
        run_single_step
          \<lparr>code_states =
               [(''initialization'', \<lparr>actions = [], successor = ''primary''\<rparr>),
                (''primary'',
                 \<lparr>actions = [Yield 0 ''final'' (Const 7) ''<state>'',
                              Raise ''TimeStepUnderflow'' ''underflow''],
                  successor = ''primary''\<rparr>)],
             code_initial_state = ''initialization'',
             code_persistent_names = [(''<t>'', ''t''), (''<dt>'', ''dt'')]\<rparr>
          \<lparr>current_state = ''primary'', persistent = []\<rparr> = (evs, e, st')
        \<and> (\<forall>name. StateCompleted name \<notin> set evs)
        \<and> e \<noteq> Completed
        \<and> current_state st' = ''primary'')"
proof -
  let ?ins = "\<lparr>instr_id = ''raise'', depends_on = [''out''],
          variant = RaiseError ''TimeStepUnderflow'' ''underflow''\<rparr>"
  let ?instrs = "[\<lparr>instr_id = ''out'', depends_on = [],
          variant = Emit 0 ''final'' (Const 7) ''<state>''\<rparr>, ?ins]"
  let ?code = "\<lparr>code_states =
               [(''initialization'', \<lparr>actions = [], successor = ''primary''\<rparr>),
                (''primary'',
                 \<lparr>actions = [Yield 0 ''final'' (Const 7) ''<state>'',
                              Raise ''TimeStepUnderflow'' ''underflow''],
                  successor = ''primary''\<rparr>)],
             code_initial_state = ''initialization'',
             code_persistent_names = [(''<t>'', ''t''), (''<dt>'', ''dt'')]\<rparr>"
  let ?st = "\<lparr>current_state = ''primary'', persistent = []\<rparr>"
  have h1: "distinct (map instr_id ?instrs)" by simp
  have h2: "?ins \<in> set ?instrs" by simp
  have h3: "variant ?ins = RaiseError ''TimeStepUnderflow'' ''underflow''" by simp
  have b: "build_stepper legal_identifier sanitize_name [] ?instrs [''raise''] = Some ?code"
    by code_simp
  then have h4: "build_stepper legal_identifier sanitize_name [] ?instrs [instr_id ?ins]
      = Some ?code" by simp
  from raise_error_program [OF h1 h2 h3, THEN conjunct2, rule_format, OF h4]
  have "\<forall>st. current_state st = ''primary'' \<longrightarrow>
         (\<exists>evs e st'. run_single_step ?code st = (evs, e, st')
            \<and> (\<forall>name. StateCompleted name \<notin> set evs)
            \<and> e \<noteq> Completed
            \<and> current_state st' = ''primary'')"
    by blast
  then have "\<exists>evs e st'. run_single_step ?code ?st = (evs, e, st')
            \<and> (\<forall>name. StateCompleted name \<notin> set evs)
            \<and> e \<noteq> Completed
            \<and> current_state st' = ''primary''"
    by simp
  with h1 b show ?thesis by blast
qed

text \<open>
  Claim C7 as stated fails: when the \<open>RaiseError\<close> at the step root depends on an
  \<open>AbortStep\<close>, executing the step surfaces \<open>StepFailed\<close>, and a run of three steps
  never surfaces \<open>Raised\<close>.
\<close>

theorem raise_error_program_counterexample:
  "build_stepper legal_identifier sanitize_name []
       [\<lparr>instr_id = ''fail'', depends_on = [], variant = AbortStep\<rparr>,
        \<lparr>instr_id = ''raise'', depends_on = [''fail''],
          variant = RaiseError ''TimeStepUnderflow'' ''underflow''\<rparr>] [''raise'']
     = Some \<lparr>code_states =
               [(''initialization'', \<lparr>actions = [], successor = ''primary''\<rparr>),
                (''primary'',
                 \<lparr>actions = [FailStep, Raise ''TimeStepUnderflow'' ''underflow''],
                  successor = ''primary''\<rparr>)],
             code_initial_state = ''initialization'',
             code_persistent_names = [(''<t>'', ''t''), (''<dt>'', ''dt'')]\<rparr>
   \<and> run 3
        \<lparr>code_states =
               [(''initialization'', \<lparr>actions = [], successor = ''primary''\<rparr>),
                (''primary'',
                 \<lparr>actions = [FailStep, Raise ''TimeStepUnderflow'' ''underflow''],
                  successor = ''primary''\<rparr>)],
             code_initial_state = ''initialization'',
             code_persistent_names = [(''<t>'', ''t''), (''<dt>'', ''dt'')]\<rparr>
        (set_up \<lparr>code_states =
               [(''initialization'', \<lparr>actions = [], successor = ''primary''\<rparr>),
                (''primary'',
                 \<lparr>actions = [FailStep, Raise ''TimeStepUnderflow'' ''underflow''],
                  successor = ''primary''\<rparr>)],
             code_initial_state = ''initialization'',
             code_persistent_names = [(''<t>'', ''t''), (''<dt>'', ''dt'')]\<rparr> 0 0 [])
     = [Event (StateCompleted ''initialization''), Signal StepFailed, Signal StepFailed]"
  by code_simp

lemma single_emit_program_behaviour:
  assumes "distinct (map instr_id instrs)"
    and "ins \<in> set instrs" and "variant ins = Emit tm tid e cid"
    and "build_stepper legal sanitize [] instrs [instr_id ins] = Some code"
  shows "\<exists>acts e'.
      map_of (code_states code) ''primary''
        = Some \<lparr>actions = acts @ [Yield tm tid e' cid], successor = ''primary''\<rparr>
    \<and> (\<exists>ns ns'. lower_expr legal sanitize ns e = Some (ns', e'))
    \<and> (depends_on ins = [] \<longrightarrow> acts = [])
    \<and> (\<forall>t dt ctx v.
          run 2 code (set_up code t dt ctx)
            = [Event (StateCompleted ''initialization''), Event (Emitted cid tid tm v),
               Event (StateCompleted ''primary'')]
          \<longleftrightarrow> (\<exists>s. exec_actions acts (persistent (set_up code t dt ctx), []) = ([], Done s)
                    \<and> eval_expr (lookup_var s) e' = Some v))"
proof -
  from rooted_primary_code [OF assms(1,2,4)] obtain a0 acts ns ns' a where
    cs0: "code_states code = [(''initialization'', \<lparr>actions = a0, successor = ''primary''\<rparr>),
                          (''primary'', \<lparr>actions = acts @ a, successor = ''primary''\<rparr>)]"
    and ci: "code_initial_state code = ''initialization''"
    and low: "lower_instrs (length instrs) legal sanitize
          (two_state_program [] instrs [instr_id ins]) ns [ins] = Some (ns', a)"
    and nodeps: "depends_on ins = [] \<longrightarrow> acts = []"
    and a0: "a0 = []"
    by blast
  from lower_instrs_single(3) [OF low assms(3)] obtain e' where
    a: "a = [Yield tm tid e' cid]" and le: "lower_expr legal sanitize ns e = Some (ns', e')"
    by blast
  note cs = cs0 [unfolded a a0]
  have prim: "map_of (code_states code) ''primary''
        = Some \<lparr>actions = acts @ [Yield tm tid e' cid], successor = ''primary''\<rparr>"
    by (simp add: cs)
  have three: "run 2 code (set_up code t dt ctx)
            = [Event (StateCompleted ''initialization''), Event (Emitted cid tid tm v),
               Event (StateCompleted ''primary'')]
          \<longleftrightarrow> (\<exists>s. exec_actions acts (persistent (set_up code t dt ctx), []) = ([], Done s)
                    \<and> eval_expr (lookup_var s) e' = Some v)"
    for t dt ctx v
  proof -
    let ?st0 = "set_up code t dt ctx"
    let ?st1 = "\<lparr>current_state = ''primary'', persistent = persistent ?st0\<rparr>"
    have first: "run_single_step code ?st0 = ([StateCompleted ''initialization''], Completed, ?st1)"
      using run_single_step_initialization [OF cs, of ?st0]
      by (simp add: set_up_def ci)
    obtain evs0 r0 where ex: "exec_actions acts (persistent ?st0, []) = (evs0, r0)"
      by (cases "exec_actions acts (persistent ?st0, [])") auto
    from exec_actions_events [OF ex] have noc: "\<forall>name. StateCompleted name \<notin> set evs0" by blast
    have two: "run 2 code ?st0 = Event (StateCompleted ''initialization'') # run (Suc 0) code ?st1"
      unfolding run_two_steps first by simp
    have second: "run (Suc 0) code ?st1
            = [Event (Emitted cid tid tm v), Event (StateCompleted ''primary'')]
          \<longleftrightarrow> (\<exists>s. r0 = Done s \<and> evs0 = [] \<and> eval_expr (lookup_var s) e' = Some v)"
    proof (cases r0)
      case (Done s)
      show ?thesis
      proof (cases "eval_expr (lookup_var s) e'")
        case None
        with Done ex noc show ?thesis
          using run_single_step_primary [OF cs, of ?st1]
          by (auto simp: exec_actions_append)
      next
        case (Some x)
        have "run (Suc 0) code ?st1
            = map Event evs0 @ [Event (Emitted cid tid tm x), Event (StateCompleted ''primary'')]"
          using Some Done ex run_single_step_primary [OF cs, of ?st1]
          by (cases s) (simp add: exec_actions_append)
        moreover have "map Event evs0 @ [Event (Emitted cid tid tm x), Event (StateCompleted ''primary'')]
            = [Event (Emitted cid tid tm v), Event (StateCompleted ''primary'')]
            \<longleftrightarrow> evs0 = [] \<and> x = v"
          by (cases evs0) (auto simp: Cons_eq_append_conv)
        ultimately show ?thesis using Some Done by auto
      qed
    next
      case (Signalled f s)
      with ex noc show ?thesis
        using run_single_step_primary [OF cs, of ?st1]
        by (cases f; cases s) (auto simp: exec_actions_append)
    next
      case Stuck
      with ex noc show ?thesis
        using run_single_step_primary [OF cs, of ?st1]
        by (auto simp: exec_actions_append)
    qed
    show ?thesis unfolding two using second ex by auto
  qed
  from prim le nodeps three show ?thesis by blast
qed

text \<open>
  Claim C6, amended. For a program built by \<open>create_with_init_and_step\<close> (unique
  instruction ids, code generated) with an empty initialization root set and a step
  root set consisting of a single \<open>Emit\<close>, with any other instructions: the \<open>Emit\<close>
  is scheduled last and emits the value of its lowered expression, and
  \<open>run(max_steps=2)\<close> after \<open>set_up\<close> produces exactly the three events
  \<open>StateCompleted("initialization")\<close>, \<open>Emitted\<close> with value \<open>v\<close>,
  \<open>StateCompleted("primary")\<close>, in this order, if and only if the instructions the
  \<open>Emit\<close> depends on run to the end without emitting an event and the expression of the
  \<open>Emit\<close> has the value \<open>v\<close>. An \<open>Emit\<close> without dependencies has nothing before
  it. For the program that holds nothing but the \<open>Emit\<close> the code is generated,
  whatever the target.
\<close>

theorem single_emit_program:
  assumes "distinct (map instr_id instrs)"
    and "ins \<in> set instrs" and "variant ins = Emit tm tid e cid"
  shows "(instrs = [ins] \<and> depends_on ins = [] \<longrightarrow>
          (\<exists>code'. build_stepper legal sanitize [] instrs [instr_id ins] = Some code'))
       \<and> (\<forall>code. build_stepper legal sanitize [] instrs [instr_id ins] = Some code \<longrightarrow>
          (\<exists>acts e'.
      map_of (code_states code) ''primary''
        = Some \<lparr>actions = acts @ [Yield tm tid e' cid], successor = ''primary''\<rparr>
    \<and> (\<exists>ns ns'. lower_expr legal sanitize ns e = Some (ns', e'))
    \<and> (depends_on ins = [] \<longrightarrow> acts = [])
    \<and> (\<forall>t dt ctx v.
          run 2 code (set_up code t dt ctx)
            = [Event (StateCompleted ''initialization''), Event (Emitted cid tid tm v),
               Event (StateCompleted ''primary'')]
          \<longleftrightarrow> (\<exists>s. exec_actions acts (persistent (set_up code t dt ctx), []) = ([], Done s)
                    \<and> eval_expr (lookup_var s) e' = Some v))))"
proof (intro conjI impI allI)
  assume "instrs = [ins] \<and> depends_on ins = []"
  then show "\<exists>code'. build_stepper legal sanitize [] instrs [instr_id ins] = Some code'"
    using build_single_exists [of ins legal sanitize] assms(3) by auto
next
  fix code
  assume "build_stepper legal sanitize [] instrs [instr_id ins] = Some code"
  from single_emit_program_behaviour [OF assms this]
  show "\<exists>acts e'.
      map_of (code_states code) ''primary''
        = Some \<lparr>actions = acts @ [Yield tm tid e' cid], successor = ''primary''\<rparr>
    \<and> (\<exists>ns ns'. lower_expr legal sanitize ns e = Some (ns', e'))
    \<and> (depends_on ins = [] \<longrightarrow> acts = [])
    \<and> (\<forall>t dt ctx v.
          run 2 code (set_up code t dt ctx)
            = [Event (StateCompleted ''initialization''), Event (Emitted cid tid tm v),
               Event (StateCompleted ''primary'')]
          \<longleftrightarrow> (\<exists>s. exec_actions acts (persistent (set_up code t dt ctx), []) = ([], Done s)
                    \<and> eval_expr (lookup_var s) e' = Some v))" .
qed

text \<open>
  The theorem at a program whose \<open>Emit\<close> depends on the assignment of the local that it
  emits.
\<close>

theorem single_emit_program_witness:
  "distinct (map instr_id
       [\<lparr>instr_id = ''set'', depends_on = [], variant = Assign ''y'' (Const 5)\<rparr>,
        \<lparr>instr_id = ''return'', depends_on = [''set''],
          variant = Emit 0 ''final'' (Var ''y'') ''<state>''\<rparr>])
   \<and> build_stepper legal_identifier sanitize_name []
       [\<lparr>instr_id = ''set'', depends_on = [], variant = Assign ''y'' (Const 5)\<rparr>,
        \<lparr>instr_id = ''return'', depends_on = [''set''],
          variant = Emit 0 ''final'' (Var ''y'') ''<state>''\<rparr>] [''return'']
     = Some \<lparr>code_states =
               [(''initialization'', \<lparr>actions = [], successor = ''primary''\<rparr>),
                (''primary'',
                 \<lparr>actions = [Store (Local ''y'') (Const 5),
                              Yield 0 ''final'' (Var (Local ''y'')) ''<state>''],
                  successor = ''primary''\<rparr>)],
             code_initial_state = ''initialization'',
             code_persistent_names = [(''<t>'', ''t''), (''<dt>'', ''dt'')]\<rparr>
   \<and> run 2
        \<lparr>code_states =
               [(''initialization'', \<lparr>actions = [], successor = ''primary''\<rparr>),
                (''primary'',
                 \<lparr>actions = [Store (Local ''y'') (Const 5),
                              Yield 0 ''final'' (Var (Local ''y'')) ''<state>''],
                  successor = ''primary''\<rparr>)],
             code_initial_state = ''initialization'',
             code_persistent_names = [(''<t>'', ''t''), (''<dt>'', ''dt'')]\<rparr>
        (set_up \<lparr>code_states =
               [(''initialization'', \<lparr>actions = [], successor = ''primary''\<rparr>),
                (''primary'',
                 \<lparr>actions = [Store (Local ''y'') (Const 5),
                              Yield 0 ''final'' (Var (Local ''y'')) ''<state>''],
                  successor = ''primary''\<rparr>)],
             code_initial_state = ''initialization'',
             code_persistent_names = [(''<t>'', ''t''), (''<dt>'', ''dt'')]\<rparr> 0 0 [])
     = [Event (StateCompleted ''initialization''), Event (Emitted ''<state>'' ''final'' 0 5),
        Event (StateCompleted ''primary'')]"
proof -
  let ?ins = "\<lparr>instr_id = ''return'', depends_on = [''set''],
          variant = Emit 0 ''final'' (Var ''y'') ''<state>''\<rparr>"
  let ?instrs = "[\<lparr>instr_id = ''set'', depends_on = [], variant = Assign ''y'' (Const 5)\<rparr>, ?ins]"
  let ?code = "\<lparr>code_states =
               [(''initialization'', \<lparr>actions = [], successor = ''primary''\<rparr>),
                (''primary'',
                 \<lparr>actions = [Store (Local ''y'') (Const 5),
                              Yield 0 ''final'' (Var (Local ''y'')) ''<state>''],
                  successor = ''primary''\<rparr>)],
             code_initial_state = ''initialization'',
             code_persistent_names = [(''<t>'', ''t''), (''<dt>'', ''dt'')]\<rparr>"
  have h1: "distinct (map instr_id ?instrs)" by simp
  have h2: "?ins \<in> set ?instrs" by simp
  have h3: "variant ?ins = Emit 0 ''final'' (Var ''y'') ''<state>''" by simp
  have b: "build_stepper legal_identifier sanitize_name [] ?instrs [''return''] = Some ?code"
    by code_simp
  then have h4: "build_stepper legal_identifier sanitize_name [] ?instrs [instr_id ?ins]
      = Some ?code" by simp
  from single_emit_program [OF h1 h2 h3, THEN conjunct2, rule_format, OF h4] obtain acts e' where
    prim: "map_of (code_states ?code) ''primary''
        = Some \<lparr>actions = acts @ [Yield 0 ''final'' e' ''<state>''], successor = ''primary''\<rparr>"
    and iff: "\<forall>t dt ctx v.
          run 2 ?code (set_up ?code t dt ctx)
            = [Event (StateCompleted ''initialization''), Event (Emitted ''<state>'' ''final'' 0 v),
               Event (StateCompleted ''primary'')]
          \<longleftrightarrow> (\<exists>s. exec_actions acts (persistent (set_up ?code t dt ctx), []) = ([], Done s)
                    \<and> eval_expr (lookup_var s) e' = Some v)"
    by blast
  from prim have "acts @ [Yield 0 ''final'' e' ''<state>'']
      = [Store (Local ''y'') (Const 5)] @ [Yield 0 ''final'' (Var (Local ''y'')) ''<state>'']"
    by simp
  then have acts: "acts = [Store (Local ''y'') (Const 5)]" and e': "e' = Var (Local ''y'')"
    by (simp_all only: append1_eq_conv action.inject)
  have "\<exists>s. exec_actions acts (persistent (set_up ?code 0 0 []), []) = ([], Done s)
          \<and> eval_expr (lookup_var s) e' = Some 5"
    unfolding acts e' by (simp add: set_up_def)
  with iff have "run 2 ?code (set_up ?code 0 0 [])
      = [Event (StateCompleted ''initialization''), Event (Emitted ''<state>'' ''final'' 0 5),
         Event (StateCompleted ''primary'')]"
    by blast
  with h1 b show ?thesis by blast
qed

text \<open>
  Claim C6 as stated fails twice. When the \<open>Emit\<close> at the step root depends on another
  \<open>Emit\<close>, the run produces four events. When its expression is a variable without a
  value, the run produces one event, \<open>StateCompleted("initialization")\<close>, and stops.
\<close>

theorem single_emit_program_counterexample:
  "build_stepper legal_identifier sanitize_name []
       [\<lparr>instr_id = ''first'', depends_on = [], variant = Emit 0 ''final'' (Const 1) ''<state>''\<rparr>,
        \<lparr>instr_id = ''return'', depends_on = [''first''],
          variant = Emit 0 ''final'' (Const 0) ''<state>''\<rparr>] [''return'']
     = Some \<lparr>code_states =
               [(''initialization'', \<lparr>actions = [], successor = ''primary''\<rparr>),
                (''primary'',
                 \<lparr>actions = [Yield 0 ''final'' (Const 1) ''<state>'',
                              Yield 0 ''final'' (Const 0) ''<state>''],
                  successor = ''primary''\<rparr>)],
             code_initial_state = ''initialization'',
             code_persistent_names = [(''<t>'', ''t''), (''<dt>'', ''dt'')]\<rparr>
   \<and> run 2
        \<lparr>code_states =
               [(''initialization'', \<lparr>actions = [], successor = ''primary''\<rparr>),
                (''primary'',
                 \<lparr>actions = [Yield 0 ''final'' (Const 1) ''<state>'',
                              Yield 0 ''final'' (Const 0) ''<state>''],
                  successor = ''primary''\<rparr>)],
             code_initial_state = ''initialization'',
             code_persistent_names = [(''<t>'', ''t''), (''<dt>'', ''dt'')]\<rparr>
        (set_up \<lparr>code_states =
               [(''initialization'', \<lparr>actions = [], successor = ''primary''\<rparr>),
                (''primary'',
                 \<lparr>actions = [Yield 0 ''final'' (Const 1) ''<state>'',
                              Yield 0 ''final'' (Const 0) ''<state>''],
                  successor = ''primary''\<rparr>)],
             code_initial_state = ''initialization'',
             code_persistent_names = [(''<t>'', ''t''), (''<dt>'', ''dt'')]\<rparr> 0 0 [])
     = [Event (StateCompleted ''initialization''), Event (Emitted ''<state>'' ''final'' 0 1),
        Event (Emitted ''<state>'' ''final'' 0 0), Event (StateCompleted ''primary'')]
   \<and> build_stepper legal_identifier sanitize_name []
       [\<lparr>instr_id = ''return'', depends_on = [],
          variant = Emit 0 ''final'' (Var ''x'') ''<state>''\<rparr>] [''return'']
     = Some \<lparr>code_states =
               [(''initialization'', \<lparr>actions = [], successor = ''primary''\<rparr>),
                (''primary'',
                 \<lparr>actions = [Yield 0 ''final'' (Var (Local ''x'')) ''<state>''],
                  successor = ''primary''\<rparr>)],
             code_initial_state = ''initialization'',
             code_persistent_names = [(''<t>'', ''t''), (''<dt>'', ''dt'')]\<rparr>
   \<and> run 2
        \<lparr>code_states =
               [(''initialization'', \<lparr>actions = [], successor = ''primary''\<rparr>),
                (''primary'',
                 \<lparr>actions = [Yield 0 ''final'' (Var (Local ''x'')) ''<state>''],
                  successor = ''primary''\<rparr>)],
             code_initial_state = ''initialization'',
             code_persistent_names = [(''<t>'', ''t''), (''<dt>'', ''dt'')]\<rparr>
        (set_up \<lparr>code_states =
               [(''initialization'', \<lparr>actions = [], successor = ''primary''\<rparr>),
                (''primary'',
                 \<lparr>actions = [Yield 0 ''final'' (Var (Local ''x'')) ''<state>''],
                  successor = ''primary''\<rparr>)],
             code_initial_state = ''initialization'',
             code_persistent_names = [(''<t>'', ''t''), (''<dt>'', ''dt'')]\<rparr> 0 0 [])
     = [Event (StateCompleted ''initialization'')]"
  by code_simp

text \<open>
  Claim C9. Two locals named \<open>y^\<close> and \<open>y*\<close> assigned in the same state get distinct
  identifiers, whatever the target's legal identifiers and sanitizer are, and each
  keeps its own value: assigning \<open>y^ := a\<close> and \<open>y* := b\<close> and emitting \<open>y^ + y*\<close>
  yields \<open>a + b\<close>; with \<open>a = 1\<close> and \<open>b = 0\<close> the value is 1.
\<close>

theorem local_names_distinct:
  "\<exists>code i1 i2. build_stepper legal sanitize []
        [\<lparr>instr_id = ''assign_y^'', depends_on = [], variant = Assign ''y^'' (Const a)\<rparr>,
         \<lparr>instr_id = ''assign_y*'', depends_on = [], variant = Assign ''y*'' (Const b)\<rparr>,
         \<lparr>instr_id = ''return'', depends_on = [''assign_y^'', ''assign_y*''],
            variant = Emit tm tid (Add (Var ''y^'') (Var ''y*'')) cid\<rparr>]
        [''return''] = Some code
     \<and> map_of (code_states code) ''primary''
          = Some \<lparr>actions = [Store (Local i1) (Const a), Store (Local i2) (Const b),
                              Yield tm tid (Add (Var (Local i1)) (Var (Local i2))) cid],
                   successor = ''primary''\<rparr>
     \<and> i1 \<noteq> i2
     \<and> (\<forall>t dt ctx. run 2 code (set_up code t dt ctx)
            = [Event (StateCompleted ''initialization''), Event (Emitted cid tid tm (a + b)),
               Event (StateCompleted ''primary'')])"
proof -
  let ?i1 = "\<lparr>instr_id = ''assign_y^'', depends_on = [], variant = Assign ''y^'' (Const a)\<rparr>"
  let ?i2 = "\<lparr>instr_id = ''assign_y*'', depends_on = [], variant = Assign ''y*'' (Const b)\<rparr>"
  let ?i3 = "\<lparr>instr_id = ''return'', depends_on = [''assign_y^'', ''assign_y*''],
            variant = Emit tm tid (Add (Var ''y^'') (Var ''y*'')) cid\<rparr>"
  let ?p = "two_state_program [] [?i1, ?i2, ?i3] [''return'']"
  have create: "create_with_init_and_step [] [?i1, ?i2, ?i3] [''return''] = Inr ?p"
    by (simp add: create_with_init_and_step_def referenced_ids_def)
  obtain m where m: "register_names legal sanitize [] [''<t>'', ''<dt>''] = Some m"
    using register_names_total by blast
  obtain i1 where n1: "name_to_identifier legal sanitize [] ''y^'' = Some ([(''y^'', i1)], i1)"
    using name_to_identifier_new [of "[]" "''y^''" legal sanitize] by auto
  obtain i2 where n2: "name_to_identifier legal sanitize [(''y^'', i1)] ''y*''
        = Some ([(''y^'', i1), (''y*'', i2)], i2)"
    and distinct: "i2 \<noteq> i1"
    using name_to_identifier_new [of "[(''y^'', i1)]" "''y*''" legal sanitize] by auto
  have n3: "name_to_identifier legal sanitize [(''y^'', i1), (''y*'', i2)] ''y^''
        = Some ([(''y^'', i1), (''y*'', i2)], i1)"
    and n4: "name_to_identifier legal sanitize [(''y^'', i1), (''y*'', i2)] ''y*''
        = Some ([(''y^'', i1), (''y*'', i2)], i2)"
    by (simp_all add: name_to_identifier_def)
  have loc: "\<not> is_state_variable ''y^''" "\<not> is_state_variable ''y*''"
    by (simp_all add: is_state_variable_def startswith_def)
  let ?acts = "[Store (Local i1) (Const a), Store (Local i2) (Const b),
                Yield tm tid (Add (Var (Local i1)) (Var (Local i2))) cid]"
  have st: "states ?p = [(''initialization'', \<lparr>root_ids = [], next_state = ''primary''\<rparr>),
                (''primary'', \<lparr>root_ids = [''return''], next_state = ''primary''\<rparr>)]"
    by (simp add: two_state_program_def)
  have s0: "schedule ?p [] = Some []"
    by (simp add: schedule_def find_instruction_def two_state_program_def)
  have s1: "schedule ?p [''return''] = Some [?i1, ?i2, ?i3]"
    by (simp add: schedule_def find_instruction_def two_state_program_def numeral_3_eq_3)
  have l0: "lower_instrs (length (instructions ?p)) legal sanitize ?p
      \<lparr>persistent_names = m, local_names = []\<rparr> [] = Some (\<lparr>persistent_names = m, local_names = []\<rparr>, [])"
    by simp
  have l1: "lower_instrs (length (instructions ?p)) legal sanitize ?p
      \<lparr>persistent_names = persistent_names \<lparr>persistent_names = m, local_names = []\<rparr>, local_names = []\<rparr>
      [?i1, ?i2, ?i3]
      = Some (\<lparr>persistent_names = m, local_names = [(''y^'', i1), (''y*'', i2)]\<rparr>, ?acts)"
    by (simp add: lower_var_def loc n1 n2 n3 n4)
  define code where "code = \<lparr>code_states =
        [(''initialization'', \<lparr>actions = [], successor = ''primary''\<rparr>),
         (''primary'', \<lparr>actions = ?acts, successor = ''primary''\<rparr>)],
      code_initial_state = ''initialization'',
      code_persistent_names = m\<rparr>"
  from generate_two_states [OF st m s0 l0 s1 l1]
  have "generate legal sanitize ?p = Some code"
    by (simp add: two_state_program_def code_def)
  with create have build: "build_stepper legal sanitize [] [?i1, ?i2, ?i3] [''return''] = Some code"
    by (simp add: build_stepper_def)
  have cs: "code_states code = [(''initialization'', \<lparr>actions = [], successor = ''primary''\<rparr>),
         (''primary'', \<lparr>actions = ?acts, successor = ''primary''\<rparr>)]"
    and ci: "code_initial_state code = ''initialization''"
    by (simp_all add: code_def)
  have prim: "map_of (code_states code) ''primary''
      = Some \<lparr>actions = ?acts, successor = ''primary''\<rparr>"
    by (simp add: cs)
  have three: "run 2 code (set_up code t dt ctx)
      = [Event (StateCompleted ''initialization''), Event (Emitted cid tid tm (a + b)),
         Event (StateCompleted ''primary'')]" for t dt ctx
  proof -
    let ?st1 = "\<lparr>current_state = ''primary'', persistent = persistent (set_up code t dt ctx)\<rparr>"
    have first: "run_single_step code (set_up code t dt ctx)
        = ([StateCompleted ''initialization''], Completed, ?st1)"
      using run_single_step_initialization [OF cs, of "set_up code t dt ctx"]
      by (simp add: set_up_def ci)
    have second: "run_single_step code ?st1
        = ([Emitted cid tid tm (a + b), StateCompleted ''primary''], Completed, ?st1)"
      using run_single_step_primary [OF cs, of ?st1] distinct by simp
    show ?thesis
      unfolding run_two_steps first by (simp add: second)
  qed
  from build prim distinct three show ?thesis by blast
qed

text \<open>
  The theorem on one target, where both names are sanitized to \<open>y\<close>.
\<close>

theorem local_names_distinct_witness:
  "build_stepper legal_identifier sanitize_name []
        [\<lparr>instr_id = ''assign_y^'', depends_on = [], variant = Assign ''y^'' (Const 1)\<rparr>,
         \<lparr>instr_id = ''assign_y*'', depends_on = [], variant = Assign ''y*'' (Const 0)\<rparr>,
         \<lparr>instr_id = ''return'', depends_on = [''assign_y^'', ''assign_y*''],
            variant = Emit 0 ''final'' (Add (Var ''y^'') (Var ''y*'')) ''y''\<rparr>]
        [''return'']
     = Some \<lparr>code_states =
               [(''initialization'', \<lparr>actions = [], successor = ''primary''\<rparr>),
                (''primary'',
                 \<lparr>actions = [Store (Local ''y'') (Const 1), Store (Local ''y0'') (Const 0),
                              Yield 0 ''final'' (Add (Var (Local ''y'')) (Var (Local ''y0''))) ''y''],
                  successor = ''primary''\<rparr>)],
             code_initial_state = ''initialization'',
             code_persistent_names = [(''<t>'', ''t''), (''<dt>'', ''dt'')]\<rparr>
   \<and> run 2 \<lparr>code_states =
               [(''initialization'', \<lparr>actions = [], successor = ''primary''\<rparr>),
                (''primary'',
                 \<lparr>actions = [Store (Local ''y'') (Const 1), Store (Local ''y0'') (Const 0),
                              Yield 0 ''final'' (Add (Var (Local ''y'')) (Var (Local ''y0''))) ''y''],
                  successor = ''primary''\<rparr>)],
             code_initial_state = ''initialization'',
             code_persistent_names = [(''<t>'', ''t''), (''<dt>'', ''dt'')]\<rparr>
        (set_up \<lparr>code_states =
               [(''initialization'', \<lparr>actions = [], successor = ''primary''\<rparr>),
                (''primary'',
                 \<lparr>actions = [Store (Local ''y'') (Const 1), Store (Local ''y0'') (Const 0),
                              Yield 0 ''final'' (Add (Var (Local ''y'')) (Var (Local ''y0''))) ''y''],
                  successor = ''primary''\<rparr>)],
             code_initial_state = ''initialization'',
             code_persistent_names = [(''<t>'', ''t''), (''<dt>'', ''dt'')]\<rparr> 0 0 [])
     = [Event (StateCompleted ''initialization''), Event (Emitted ''y'' ''final'' 0 1),
        Event (StateCompleted ''primary'')]"
proof -
  let ?instrs = "[\<lparr>instr_id = ''assign_y^'', depends_on = [], variant = Assign ''y^'' (Const 1)\<rparr>,
         \<lparr>instr_id = ''assign_y*'', depends_on = [], variant = Assign ''y*'' (Const 0)\<rparr>,
         \<lparr>instr_id = ''return'', depends_on = [''assign_y^'', ''assign_y*''],
            variant = Emit 0 ''final'' (Add (Var ''y^'') (Var ''y*'')) ''y''\<rparr>]"
  let ?code0 = "\<lparr>code_states =
               [(''initialization'', \<lparr>actions = [], successor = ''primary''\<rparr>),
                (''primary'',
                 \<lparr>actions = [Store (Local ''y'') (Const 1), Store (Local ''y0'') (Const 0),
                              Yield 0 ''final'' (Add (Var (Local ''y'')) (Var (Local ''y0''))) ''y''],
                  successor = ''primary''\<rparr>)],
             code_initial_state = ''initialization'',
             code_persistent_names = [(''<t>'', ''t''), (''<dt>'', ''dt'')]\<rparr>"
  have b: "build_stepper legal_identifier sanitize_name [] ?instrs [''return''] = Some ?code0"
    by code_simp
  from local_names_distinct [of legal_identifier sanitize_name 1 0 0 "''final''" "''y''"]
  obtain code
    where "build_stepper legal_identifier sanitize_name [] ?instrs [''return''] = Some code"
      and r: "\<forall>t dt ctx. run 2 code (set_up code t dt ctx)
            = [Event (StateCompleted ''initialization''), Event (Emitted ''y'' ''final'' 0 (1 + 0)),
               Event (StateCompleted ''primary'')]"
    by blast
  with b have "code = ?code0" by simp
  with r have "run 2 ?code0 (set_up ?code0 0 0 [])
      = [Event (StateCompleted ''initialization''), Event (Emitted ''y'' ''final'' 0 (1 + 0)),
         Event (StateCompleted ''primary'')]" by blast
  with b show ?thesis by simp
qed

end
